theory Spec2Isabelle
  imports Main
begin

section \<open>Text as Python sees it\<close>

text \<open>
  A Python \<^verbatim>\<open>str\<close> is modelled as a \<^typ>\<open>string\<close>; a \<^typ>\<open>char\<close> stands for the code
  point of the same number (0 to 255).  The character classes below are the ones
  Python 3 uses on these code points: \<^verbatim>\<open>str.isspace\<close> (also the class \<^verbatim>\<open>\s\<close> of
  \<^verbatim>\<open>re\<close>), the class \<^verbatim>\<open>\w\<close>, and the white space \<^verbatim>\<open>int()\<close> strips.  Code points
  above 255 are outside the model.
\<close>

definition code :: "char \<Rightarrow> nat" where
  "code c = of_char c"

definition is_space :: "char \<Rightarrow> bool" where
  "is_space c = (let n = code c in
     (9 \<le> n \<and> n \<le> 13) \<or> (28 \<le> n \<and> n \<le> 32) \<or> n = 133 \<or> n = 160)"

definition is_word :: "char \<Rightarrow> bool" where
  "is_word c = (let n = code c in
     (48 \<le> n \<and> n \<le> 57) \<or> (65 \<le> n \<and> n \<le> 90) \<or> n = 95 \<or> (97 \<le> n \<and> n \<le> 122) \<or>
     n = 170 \<or> n = 178 \<or> n = 179 \<or> n = 181 \<or> n = 185 \<or> n = 186 \<or>
     (188 \<le> n \<and> n \<le> 190) \<or> (192 \<le> n \<and> n \<le> 214) \<or> (216 \<le> n \<and> n \<le> 246) \<or>
     248 \<le> n)"

definition is_digit :: "char \<Rightarrow> bool" where
  "is_digit c = (48 \<le> code c \<and> code c \<le> 57)"

text \<open>
  Case folding as \<^verbatim>\<open>re.IGNORECASE\<close> applies it when the pattern character is ASCII (every
  pattern of the program is): two characters agree when they are equal after the letters
  \<^verbatim>\<open>A-Z\<close> are mapped to \<^verbatim>\<open>a-z\<close>.
\<close>

definition fold_code :: "char \<Rightarrow> nat" where
  "fold_code c = (let n = code c in if 65 \<le> n \<and> n \<le> 90 then n + 32 else n)"

definition casefold :: "string \<Rightarrow> nat list" where
  "casefold s = map fold_code s"

text \<open>\<^verbatim>\<open>p in s\<close> on strings: \<open>p\<close> occurs in \<open>s\<close> as a contiguous substring.\<close>

fun str_in :: "string \<Rightarrow> string \<Rightarrow> bool" where
  "str_in p [] = (p = [])"
| "str_in p (c # cs) = (take (length p) (c # cs) = p \<or> str_in p cs)"

text \<open>\<^verbatim>\<open>s.strip()\<close> and \<^verbatim>\<open>s.split(d)\<close> for a one-character separator \<open>d\<close>.\<close>

definition strip :: "string \<Rightarrow> string" where
  "strip s = rev (dropWhile is_space (rev (dropWhile is_space s)))"

fun split_chr :: "char \<Rightarrow> string \<Rightarrow> string list" where
  "split_chr d [] = [[]]"
| "split_chr d (c # cs) =
     (if c = d then [] # split_chr d cs
      else (case split_chr d cs of p # ps \<Rightarrow> (c # p) # ps | [] \<Rightarrow> [[c]]))"

text \<open>
  \<^verbatim>\<open>int(s)\<close> in base 10: white space is stripped at both ends, one sign is allowed, and
  the digits may be separated by single underscores.  \<open>None\<close> is \<^verbatim>\<open>ValueError\<close>.
  (The interpreter's limit on the number of digits of the literal is not modelled.)
\<close>

definition int_space :: "char \<Rightarrow> bool" where
  "int_space c = (let n = code c in (9 \<le> n \<and> n \<le> 13) \<or> n = 32 \<or> n = 133 \<or> n = 160)"

fun digits_ok :: "string \<Rightarrow> bool" where
  "digits_ok [] = False"
| "digits_ok [c] = is_digit c"
| "digits_ok (c # d # cs) =
     (is_digit c \<and> (if d = CHR ''_'' then digits_ok cs else digits_ok (d # cs)))"

definition digits_val :: "string \<Rightarrow> int" where
  "digits_val s = foldl (\<lambda>a c. if c = CHR ''_'' then a else 10 * a + (int (code c) - 48)) 0 s"

definition py_int :: "string \<Rightarrow> int option" where
  "py_int s =
     (let t = rev (dropWhile int_space (rev (dropWhile int_space s)));
          neg = (case t of c # _ \<Rightarrow> c = CHR ''-'' | [] \<Rightarrow> False);
          body = (case t of c # r \<Rightarrow> if c = CHR ''-'' \<or> c = CHR ''+'' then r else t | [] \<Rightarrow> t)
      in if digits_ok body
         then Some (if neg then - digits_val body else digits_val body)
         else None)"

text \<open>
  \<^verbatim>\<open>xs[i:j]\<close>: a negative bound counts from the end, both bounds are clamped to the list,
  and an empty range gives the empty list.  A slice never raises.
\<close>

definition slice_bound :: "nat \<Rightarrow> int \<Rightarrow> nat" where
  "slice_bound n i = (if i < 0 then nat (max 0 (int n + i)) else min n (nat i))"

definition py_slice :: "'a list \<Rightarrow> int \<Rightarrow> int \<Rightarrow> 'a list" where
  "py_slice xs i j =
     (let lo = slice_bound (length xs) i; hi = slice_bound (length xs) j
      in take (hi - lo) (drop lo xs))"

text \<open>\<^verbatim>\<open>str(n)\<close> for a natural number.\<close>

fun str_nat :: "nat \<Rightarrow> string" where
  "str_nat n =
     (if n < 10 then [char_of (48 + n)] else str_nat (n div 10) @ [char_of (48 + n mod 10)])"

section \<open>The regular expressions of the program\<close>

text \<open>
  The fragment of \<^verbatim>\<open>re\<close> that the patterns of the program use: literal text, the classes
  \<^verbatim>\<open>.\<close>, \<^verbatim>\<open>\w\<close> and \<^verbatim>\<open>\s\<close>, concatenation, alternation, the greedy \<^verbatim>\<open>*\<close> and \<^verbatim>\<open>+\<close>
  and the lazy \<^verbatim>\<open>*?\<close> on a class, and numbered groups.
\<close>

datatype cls = Dot | Word | Space

datatype rx =
    Str string
  | Atom cls
  | Cat rx rx
  | Or rx rx
  | Star cls
  | Plus cls
  | LazyStar cls
  | Grp nat rx

fun cls_ok :: "cls \<Rightarrow> char \<Rightarrow> bool" where
  "cls_ok Dot c = (c \<noteq> CHR 0x0A)"
| "cls_ok Word c = is_word c"
| "cls_ok Space c = is_space c"

definition lit_eq :: "bool \<Rightarrow> string \<Rightarrow> string \<Rightarrow> bool" where
  "lit_eq ic p u = (if ic then casefold u = casefold p else u = p)"

type_synonym groups = "nat \<Rightarrow> string option"

text \<open>
  The backtracking matcher.  \<open>ms ic r g s\<close> lists, in the order in which \<^verbatim>\<open>re\<close> tries
  them, the ways \<open>r\<close> can match a prefix of \<open>s\<close>: each as the groups captured and the rest
  of the input.  \<open>ic\<close> is the flag \<^verbatim>\<open>re.IGNORECASE\<close>.
\<close>

fun ms :: "bool \<Rightarrow> rx \<Rightarrow> groups \<Rightarrow> string \<Rightarrow> (groups \<times> string) list" where
  "ms ic (Str p) g s =
     (if lit_eq ic p (take (length p) s) then [(g, drop (length p) s)] else [])"
| "ms ic (Atom k) g s =
     (case s of [] \<Rightarrow> [] | c # cs \<Rightarrow> if cls_ok k c then [(g, cs)] else [])"
| "ms ic (Cat r1 r2) g s = concat (map (\<lambda>(g1, s1). ms ic r2 g1 s1) (ms ic r1 g s))"
| "ms ic (Or r1 r2) g s = ms ic r1 g s @ ms ic r2 g s"
| "ms ic (Star k) g s =
     map (\<lambda>n. (g, drop n s)) (rev [0 ..< Suc (length (takeWhile (cls_ok k) s))])"
| "ms ic (Plus k) g s =
     map (\<lambda>n. (g, drop n s)) (rev [1 ..< Suc (length (takeWhile (cls_ok k) s))])"
| "ms ic (LazyStar k) g s =
     map (\<lambda>n. (g, drop n s)) [0 ..< Suc (length (takeWhile (cls_ok k) s))]"
| "ms ic (Grp i r) g s =
     map (\<lambda>(g1, s1). (g1(i \<mapsto> take (length s - length s1) s), s1)) (ms ic r g s)"

text \<open>
  \<^verbatim>\<open>re.search\<close>: the first start position, from the left, at which the pattern matches;
  the result is the groups of the first match in backtracking order, \<open>None\<close> when there is
  no match.
\<close>

fun re_search :: "bool \<Rightarrow> rx \<Rightarrow> string \<Rightarrow> groups option" where
  "re_search ic r [] = (case ms ic r Map.empty [] of [] \<Rightarrow> None | (g, _) # _ \<Rightarrow> Some g)"
| "re_search ic r (c # cs) =
     (case ms ic r Map.empty (c # cs) of [] \<Rightarrow> re_search ic r cs | (g, _) # _ \<Rightarrow> Some g)"

text \<open>What it means for \<open>r\<close> to match exactly the text \<open>u\<close>, taking the groups \<open>g\<close> to \<open>g'\<close>.\<close>

fun sem :: "bool \<Rightarrow> rx \<Rightarrow> groups \<Rightarrow> string \<Rightarrow> groups \<Rightarrow> bool" where
  "sem ic (Str p) g u g' = (g' = g \<and> length u = length p \<and> lit_eq ic p u)"
| "sem ic (Atom k) g u g' = (g' = g \<and> (\<exists>c. u = [c] \<and> cls_ok k c))"
| "sem ic (Cat r1 r2) g u g' =
     (\<exists>u1 u2 g1. u = u1 @ u2 \<and> sem ic r1 g u1 g1 \<and> sem ic r2 g1 u2 g')"
| "sem ic (Or r1 r2) g u g' = (sem ic r1 g u g' \<or> sem ic r2 g u g')"
| "sem ic (Star k) g u g' = (g' = g \<and> list_all (cls_ok k) u)"
| "sem ic (Plus k) g u g' = (g' = g \<and> u \<noteq> [] \<and> list_all (cls_ok k) u)"
| "sem ic (LazyStar k) g u g' = (g' = g \<and> list_all (cls_ok k) u)"
| "sem ic (Grp i r) g u g' = (\<exists>g1. sem ic r g u g1 \<and> g' = g1(i \<mapsto> u))"

section \<open>Step 3: extracting the test methods\<close>

text \<open>
  The pattern \<^verbatim>\<open>(public|private|protected).*test\w+\s*\(\<close> of \<^verbatim>\<open>extract_test_methods\<close>
  (lesson_1.py line 26, lesson_6.py line 50, the same text).
\<close>

definition modifier_rx :: rx where
  "modifier_rx = Grp 1 (Or (Str ''public'') (Or (Str ''private'') (Str ''protected'')))"

definition test_method_rx :: rx where
  "test_method_rx =
     Cat modifier_rx (Cat (Star Dot) (Cat (Str ''test'') (Cat (Plus Word)
       (Cat (Star Space) (Str [CHR ''(''])))))"

text \<open>
  The condition of the loop body, with the flag \<^verbatim>\<open>re.IGNORECASE\<close> on the whole pattern
  and the plain substring test for the annotation.
\<close>

definition is_test_method :: "string \<Rightarrow> bool" where
  "is_test_method line = (re_search True test_method_rx line \<noteq> None \<or> str_in ''@Test'' line)"

definition extract_test_methods :: "string list \<Rightarrow> string list" where
  "extract_test_methods test_lines = filter is_test_method test_lines"

text \<open>
  The access-modifier alternative of the patterns, as a predicate on the matched text:
  exact, or up to case under \<^verbatim>\<open>re.IGNORECASE\<close>.
\<close>

definition modifier :: "bool \<Rightarrow> string \<Rightarrow> bool" where
  "modifier ic m = (lit_eq ic ''public'' m \<or> lit_eq ic ''private'' m \<or> lit_eq ic ''protected'' m)"

section \<open>The world outside the program\<close>

text \<open>
  The program reads its environment through \<^verbatim>\<open>find\<close>, \<^verbatim>\<open>grep\<close>, \<^verbatim>\<open>os.path.exists\<close>
  and \<^verbatim>\<open>open(...).readlines()\<close>.  Their answers are parameters of the model, fixed for
  one run: the standard output of \<^verbatim>\<open>find repo -type f -name *.java\<close>, the standard
  output of \<^verbatim>\<open>grep -n -i test file\<close>, whether a path exists, and the lines of a file (each
  with its line break), \<open>None\<close> when opening or reading raises \<^verbatim>\<open>IOError\<close>.

  The agent is the external summarizer.  Its answer to the \<open>k\<close>-th call of a run with a
  given prompt is \<open>Inr\<close> of the text returned or \<open>Inl\<close> of the message of the exception
  raised; the number of calls made so far is threaded through the model.

  Printing and the final \<^verbatim>\<open>json.dump\<close> do not influence the results and are left out.
\<close>

record env =
  find_stdout :: "string \<Rightarrow> string"
  grep_stdout :: "string \<Rightarrow> string"
  path_exists :: "string \<Rightarrow> bool"
  readlines :: "string \<Rightarrow> string list option"

type_synonym agent = "nat \<Rightarrow> string \<Rightarrow> string + string"

definition nl :: string where
  "nl = [CHR 0x0A]"

text \<open>\<^verbatim>\<open>result.stdout.strip().split('\n') if result.stdout else []\<close> (both lessons).\<close>

definition stdout_lines :: "string \<Rightarrow> string list" where
  "stdout_lines out = (if out \<noteq> [] then split_chr (CHR 0x0A) (strip out) else [])"

definition list_files :: "env \<Rightarrow> string \<Rightarrow> string list" where
  "list_files e repo_path = stdout_lines (find_stdout e repo_path)"

definition find_test_lines :: "env \<Rightarrow> string \<Rightarrow> string list" where
  "find_test_lines e file_path = stdout_lines (grep_stdout e file_path)"

section \<open>Step 4: analysing one candidate\<close>

text \<open>
  The context window (lesson_1.py lines 47-54, lesson_6.py lines 84-91):
  \<^verbatim>\<open>''.join(lines[start_line:start_line+20])\<close> with \<^verbatim>\<open>start_line = line_num - 1\<close>, and the
  matched text when the file cannot be read.  The handler also names \<^verbatim>\<open>IndexError\<close>, which
  a slice never raises.
\<close>

definition method_body_of :: "string list option \<Rightarrow> int \<Rightarrow> string \<Rightarrow> string" where
  "method_body_of file_lines line_num method_content =
     (case file_lines of
        None \<Rightarrow> method_content
      | Some lines \<Rightarrow>
          (let start_line = line_num - 1
           in concat (py_slice lines start_line (start_line + 20))))"

text \<open>
  The two parts of \<^verbatim>\<open>method_line.split(':', 1)\<close> when the line has a colon: the text before
  the first colon and the text after it.
\<close>

definition before_colon :: "string \<Rightarrow> string" where
  "before_colon s = takeWhile (\<lambda>c. c \<noteq> CHR '':'') s"

definition after_colon :: "string \<Rightarrow> string" where
  "after_colon s = tl (dropWhile (\<lambda>c. c \<noteq> CHR '':'') s)"

subsection \<open>lesson_1.py\<close>








subsection \<open>lesson_6.py\<close>

record TestMethod =
  name :: string
  line_number :: int
  purpose :: string
  file_path :: string

record FileAnalysis =
  file_path :: string
  test_methods :: "TestMethod list"
  total_tests :: int

record TestExtractionResult =
  repository_path :: string
  total_files_analyzed :: int
  total_tests_found :: int
  file_analyses :: "FileAnalysis list"
  summary :: string

text \<open>
  The patterns of the name derivation (lesson_6.py lines 75 and 80):
  \<^verbatim>\<open>(public|private|protected).*?(\w+)\s*\(\<close>, searched without flags, and \<^verbatim>\<open>(test\w+)\<close>,
  searched with \<^verbatim>\<open>re.IGNORECASE\<close>.
\<close>

definition method_name_rx :: rx where
  "method_name_rx =
     Cat modifier_rx (Cat (LazyStar Dot) (Cat (Grp 2 (Plus Word))
       (Cat (Star Space) (Str [CHR ''('']))))"

definition test_name_rx :: rx where
  "test_name_rx = Grp 1 (Cat (Str ''test'') (Plus Word))"

text \<open>
  \<^verbatim>\<open>m.group(i)\<close> of a match.  In both patterns the group read takes part in every match,
  so the text is always there; the other branch only makes the function total.
\<close>

definition group :: "groups \<Rightarrow> nat \<Rightarrow> string" where
  "group g i = (case g i of Some t \<Rightarrow> t | None \<Rightarrow> [])"

definition method_name_of :: "string \<Rightarrow> string" where
  "method_name_of method_content =
     (if str_in ''@Test'' method_content
      then (case re_search False method_name_rx method_content of
              Some g \<Rightarrow> group g 2
            | None \<Rightarrow> ''Unknown'')
      else (case re_search True test_name_rx method_content of
              Some g \<Rightarrow> group g 1
            | None \<Rightarrow> ''Unknown''))"

definition prompt_of :: "string \<Rightarrow> string \<Rightarrow> string" where
  "prompt_of method_name method_body =
     nl @ ''    Analyze this Java test method and return structured information about it:'' @ nl @
     ''    '' @ nl @
     ''    Method name: '' @ method_name @ nl @
     ''    Code:'' @ nl @
     ''    '' @ method_body @ nl @
     ''    '' @ nl @
     ''    Provide a concise description of what this test method tests.'' @ nl @
     ''    ''"

text \<open>
  \<^verbatim>\<open>analyze_test_with_agent\<close> (lesson_6.py lines 54-118).  After the test for a colon,
  \<^verbatim>\<open>split(':', 1)\<close> always gives two parts, so the second early return is never taken.
  The result is the test method and the number of agent calls made so far.
\<close>

definition analyze_test_with_agent ::
    "env \<Rightarrow> string \<Rightarrow> string \<Rightarrow> agent \<Rightarrow> nat \<Rightarrow> TestMethod \<times> nat" where
  "analyze_test_with_agent e method_line fp agent k =
     (if \<not> str_in '':'' method_line
      then (\<lparr>name = ''Unknown'', line_number = 0, purpose = ''Unknown test'',
             TestMethod.file_path = fp\<rparr>, k)
      else
        (let line_num = before_colon method_line;
             method_content = after_colon method_line;
             line_num_int = (case py_int line_num of Some n \<Rightarrow> n | None \<Rightarrow> 0);
             method_name = method_name_of method_content;
             method_body = method_body_of (readlines e fp) line_num_int method_content;
             p = (case agent k (prompt_of method_name method_body) of
                    Inr response \<Rightarrow> response
                  | Inl err \<Rightarrow> ''Analysis failed: '' @ err)
         in (\<lparr>name = method_name, line_number = line_num_int, purpose = p,
                TestMethod.file_path = fp\<rparr>, Suc k)))"

text \<open>The loop over \<^verbatim>\<open>test_methods[:3]\<close> (lesson_6.py lines 158-161), given its list.\<close>

fun analyze_all ::
    "env \<Rightarrow> agent \<Rightarrow> string \<Rightarrow> string list \<Rightarrow> nat \<Rightarrow> TestMethod list \<times> nat" where
  "analyze_all e agent fp [] k = ([], k)"
| "analyze_all e agent fp (method_line # rest) k =
     (let (test_method, k1) = analyze_test_with_agent e method_line fp agent k;
          (analyzed_methods, k2) = analyze_all e agent fp rest k1
      in (test_method # analyzed_methods, k2))"

text \<open>
  The loop over the files (lesson_6.py lines 139-169).  The state is \<^verbatim>\<open>file_analyses\<close>,
  \<^verbatim>\<open>total_tests\<close> and the number of agent calls.
\<close>

fun main_loop ::
    "env \<Rightarrow> agent \<Rightarrow> string list \<Rightarrow> FileAnalysis list \<times> int \<times> nat
       \<Rightarrow> FileAnalysis list \<times> int \<times> nat" where
  "main_loop e agent [] st = st"
| "main_loop e agent (fp # files) (analyses, total_count, k) =
     (if \<not> path_exists e fp then main_loop e agent files (analyses, total_count, k)
      else
        (let test_lines = find_test_lines e fp
         in if test_lines = [] \<or> test_lines = [[]]
            then main_loop e agent files (analyses, total_count, k)
            else
              (let candidates = extract_test_methods test_lines
               in if candidates = []
                  then main_loop e agent files (analyses, total_count, k)
                  else
                    (let (analyzed_methods, k1) = analyze_all e agent fp (take 3 candidates) k;
                         file_analysis = \<lparr>FileAnalysis.file_path = fp,
                                           test_methods = analyzed_methods,
                                           total_tests = int (length analyzed_methods)\<rparr>
                     in main_loop e agent files
                          (analyses @ [file_analysis],
                           total_count + int (length analyzed_methods), k1)))))"

definition str_int :: "int \<Rightarrow> string" where
  "str_int i = (if i < 0 then CHR ''-'' # str_nat (nat (- i)) else str_nat (nat i))"

definition main :: "env \<Rightarrow> agent \<Rightarrow> string \<Rightarrow> TestExtractionResult" where
  "main e agent repo_path =
     (let files = list_files e repo_path;
          (analyses, total_count, k) = main_loop e agent files ([], 0, 0)
      in \<lparr>repository_path = repo_path,
          total_files_analyzed = int (length (filter (path_exists e) files)),
          total_tests_found = total_count,
          file_analyses = analyses,
          summary = ''Analyzed '' @ str_nat (length analyses) @
                    '' files with test methods, found '' @ str_int total_count @
                    '' total test methods''\<rparr>)"




text \<open>
  The two shapes the name derivation looks for in the text after the colon.  In
  \<open>annotated_form\<close> the text is split into what precedes the access modifier \<open>m\<close>, the
  text \<open>mid\<close> up to the name, the name \<open>w\<close> (word characters), white space \<open>sp\<close>, the
  opening parenthesis and the rest; in \<open>prefix_form\<close> into what precedes \<open>t\<close> (\<^verbatim>\<open>test\<close> in
  any case), the word characters \<open>w\<close> after it and the rest.
\<close>

definition annotated_form ::
    "string \<Rightarrow> string \<Rightarrow> string \<Rightarrow> string \<Rightarrow> string \<Rightarrow> string \<Rightarrow> string \<Rightarrow> bool" where
  "annotated_form c pre m mid w sp post =
     (c = pre @ m @ mid @ w @ sp @ [CHR ''(''] @ post \<and>
      m \<in> {''public'', ''private'', ''protected''} \<and> CHR 0x0A \<notin> set mid \<and>
      w \<noteq> [] \<and> list_all is_word w \<and> list_all is_space sp)"

definition prefix_form :: "string \<Rightarrow> string \<Rightarrow> string \<Rightarrow> string \<Rightarrow> string \<Rightarrow> bool" where
  "prefix_form c pre t w post =
     (c = pre @ t @ w @ post \<and> casefold t = casefold ''test'' \<and> w \<noteq> [] \<and> list_all is_word w)"



section \<open>lesson_3.py: the tool grep_pattern\<close>

text \<open>
  The tool asks the file system for the absolute path, for existence and for being a
  regular file, and runs \<^verbatim>\<open>grep\<close> as a subprocess.  \<open>run\<close> gives what
  \<^verbatim>\<open>subprocess.run\<close> does with a command: \<open>Inr\<close> of the standard output, or \<open>Inl\<close> of the
  message of the exception it raises.  Besides the text returned, the model returns the
  list of the commands handed to \<^verbatim>\<open>subprocess.run\<close>.
\<close>

record fs =
  abspath :: "string \<Rightarrow> string"
  fs_exists :: "string \<Rightarrow> bool"
  fs_isfile :: "string \<Rightarrow> bool"
  run :: "string list \<Rightarrow> string + string"

text \<open>
  \<^verbatim>\<open>shlex.quote\<close>: the empty string becomes two quotes, a string of safe characters
  (ASCII letters, digits and \<^verbatim>\<open>_@%+=:,./-\<close>) is left alone, anything else is put in single
  quotes, each single quote inside written as \<^verbatim>\<open>'"'"'\<close>.
\<close>

definition shlex_safe :: "char \<Rightarrow> bool" where
  "shlex_safe c = (let n = code c in
     (48 \<le> n \<and> n \<le> 57) \<or> (65 \<le> n \<and> n \<le> 90) \<or> n = 95 \<or> (97 \<le> n \<and> n \<le> 122) \<or>
     c \<in> set ''@%+=:,./-'')"

definition shlex_quote :: "string \<Rightarrow> string" where
  "shlex_quote s =
     (if s = [] then [CHR 0x27, CHR 0x27]
      else if list_all shlex_safe s then s
      else [CHR 0x27] @
           concat (map (\<lambda>c. if c = CHR 0x27
                              then [CHR 0x27, CHR 0x22, CHR 0x27, CHR 0x22, CHR 0x27]
                              else [c]) s) @
           [CHR 0x27])"

text \<open>
  The list \<^verbatim>\<open>allowed_patterns\<close> of lesson_3.py lines 66-69; \<^verbatim>\<open>"it\\("\<close> in the source is
  the four characters \<^verbatim>\<open>it\(\<close>.
\<close>

definition allowed_patterns :: "string list" where
  "allowed_patterns =
     [''test'', ''@Test'', ''it'' @ [CHR 0x5C, CHR 0x28], ''describe'' @ [CHR 0x5C, CHR 0x28],
      ''def test_'', ''@pytest'', ''public.*test'', ''private.*test'', ''protected.*test'']"

text \<open>\<^verbatim>\<open>any(allowed in pattern for allowed in allowed_patterns)\<close>.\<close>

definition pattern_allowed :: "string \<Rightarrow> bool" where
  "pattern_allowed pattern = list_ex (\<lambda>allowed. str_in allowed pattern) allowed_patterns"

definition grep_cmd :: "string \<Rightarrow> string \<Rightarrow> bool \<Rightarrow> string list" where
  "grep_cmd safe_file_path pattern case_insensitive =
     [''grep'', ''-n''] @ (if case_insensitive then [''-i''] else []) @
     [shlex_quote pattern, shlex_quote safe_file_path]"

definition grep_pattern :: "fs \<Rightarrow> string \<Rightarrow> string \<Rightarrow> bool \<Rightarrow> string \<times> string list list" where
  "grep_pattern w fp pattern case_insensitive =
     (let safe_file_path = abspath w fp
      in if \<not> fs_exists w safe_file_path \<or> \<not> fs_isfile w safe_file_path
         then (''Error: File does not exist or is not a regular file'', [])
         else if \<not> pattern_allowed pattern
         then (''Error: Pattern not allowed for security reasons'', [])
         else
           (let cmd = grep_cmd safe_file_path pattern case_insensitive
            in (case run w cmd of
                  Inr out \<Rightarrow> (if out \<noteq> [] then strip out else ''No matches found'', [cmd])
                | Inl err \<Rightarrow> (''Error: '' @ err, [cmd]))))"

section \<open>A small repository to run the model on\<close>

text \<open>
  One Java file with four candidate lines and one comment line, and an agent whose second
  call raises.
\<close>

definition demo_env :: env where
  "demo_env =
     \<lparr>find_stdout = (\<lambda>_. ''/r/A.java'' @ nl),
      grep_stdout = (\<lambda>_.
        ''2:public void testA() {'' @ nl @
        ''5:@Test void b() {'' @ nl @
        ''7:// test'' @ nl @
        ''9:public void testC() {'' @ nl @
        ''11:private int testD(int x) {'' @ nl),
      path_exists = (\<lambda>p. p = ''/r/A.java''),
      readlines = (\<lambda>_. Some [''class A {'' @ nl, ''public void testA() {'' @ nl, ''}'' @ nl])\<rparr>"

definition demo_agent :: agent where
  "demo_agent k prompt = (if k = 1 then Inl ''boom'' else Inr ''Tests it'')"

definition demo_fs :: fs where
  "demo_fs =
     \<lparr>abspath = (\<lambda>p. ''/r/'' @ p), fs_exists = (\<lambda>_. True), fs_isfile = (\<lambda>_. True),
      run = (\<lambda>cmd. Inr (''2:public void testA() {'' @ nl))\<rparr>"

section \<open>Facts about the text operations and the matcher\<close>

lemma str_in_iff: "str_in p s \<longleftrightarrow> (\<exists>a b. s = a @ p @ b)"
proof (induction s)
  case Nil
  then show ?case by auto
next
  case (Cons c cs)
  show ?case
  proof
    assume "str_in p (c # cs)"
    then consider "take (length p) (c # cs) = p" | "str_in p cs" by auto
    then show "\<exists>a b. c # cs = a @ p @ b"
    proof cases
      case 1
      then have "c # cs = [] @ p @ drop (length p) (c # cs)"
        by (metis append_Nil append_take_drop_id)
      then show ?thesis by blast
    next
      case 2
      then obtain a b where "cs = a @ p @ b" using Cons.IH by blast
      then have "c # cs = (c # a) @ p @ b" by simp
      then show ?thesis by blast
    qed
  next
    assume "\<exists>a b. c # cs = a @ p @ b"
    then obtain a b where ab: "c # cs = a @ p @ b" by blast
    show "str_in p (c # cs)"
    proof (cases a)
      case Nil
      then have "take (length p) (c # cs) = p" using ab by simp
      then show ?thesis by simp
    next
      case (Cons x a')
      then have "cs = a' @ p @ b" using ab by simp
      then have "str_in p cs" using Cons.IH by blast
      then show ?thesis by simp
    qed
  qed
qed

lemma drop_prefix_class:
  "(\<exists>n \<le> length (takeWhile P s). v = drop n s) \<longleftrightarrow> (\<exists>u. s = u @ v \<and> list_all P u)"
proof
  assume "\<exists>n \<le> length (takeWhile P s). v = drop n s"
  then obtain n where n: "n \<le> length (takeWhile P s)" "v = drop n s" by blast
  have "take n s = take n (takeWhile P s)"
    using n(1) by (metis append_eq_conv_conj takeWhile_dropWhile_id take_append diff_is_0_eq take_0 append_Nil2)
  then have "set (take n s) \<subseteq> set (takeWhile P s)" by (metis set_take_subset)
  then have "list_all P (take n s)" by (auto simp: list_all_iff dest: set_takeWhileD)
  moreover have "s = take n s @ v" using n(2) by simp
  ultimately show "\<exists>u. s = u @ v \<and> list_all P u" by blast
next
  assume "\<exists>u. s = u @ v \<and> list_all P u"
  then obtain u where u: "s = u @ v" "list_all P u" by blast
  have "takeWhile P s = u @ takeWhile P v"
    using u by (simp add: list_all_iff takeWhile_append2)
  then have "length u \<le> length (takeWhile P s)" by simp
  moreover have "v = drop (length u) s" using u(1) by simp
  ultimately show "\<exists>n \<le> length (takeWhile P s). v = drop n s" by blast
qed

lemma lit_eq_length: "lit_eq ic p u \<Longrightarrow> length u = length p"
  by (auto simp: lit_eq_def casefold_def dest: map_eq_imp_length_eq split: if_splits)

lemma in_map_upt:
  "x \<in> set (map f [a ..< Suc n]) \<longleftrightarrow> (\<exists>m. a \<le> m \<and> m \<le> n \<and> x = f m)"
  unfolding set_map set_upt by (auto simp: less_Suc_eq_le)

lemma in_map_rev_upt:
  "x \<in> set (map f (rev [a ..< Suc n])) \<longleftrightarrow> (\<exists>m. a \<le> m \<and> m \<le> n \<and> x = f m)"
  unfolding set_map set_rev set_upt by (auto simp: less_Suc_eq_le)

lemma ms_sem_Str:
  "(g', v) \<in> set (ms ic (Str p) g s) \<longleftrightarrow> (\<exists>u. s = u @ v \<and> sem ic (Str p) g u g')"
proof
  assume "(g', v) \<in> set (ms ic (Str p) g s)"
  then have h: "lit_eq ic p (take (length p) s)" "g' = g" "v = drop (length p) s"
    by (simp_all split: if_splits)
  have 1: "s = take (length p) s @ v" using h(3) by simp
  have 2: "length (take (length p) s) = length p" using h(1) by (rule lit_eq_length)
  have "sem ic (Str p) g (take (length p) s) g'" using h(1,2) 2 by simp
  with 1 show "\<exists>u. s = u @ v \<and> sem ic (Str p) g u g'" by blast
next
  assume "\<exists>u. s = u @ v \<and> sem ic (Str p) g u g'"
  then obtain u where "s = u @ v" "g' = g" "length u = length p" "lit_eq ic p u" by auto
  then show "(g', v) \<in> set (ms ic (Str p) g s)" by simp
qed

lemma ms_sem_Atom:
  "(g', v) \<in> set (ms ic (Atom k) g s) \<longleftrightarrow> (\<exists>u. s = u @ v \<and> sem ic (Atom k) g u g')"
  by (cases s) auto

lemma ms_sem_Star:
  "(g', v) \<in> set (ms ic (Star k) g s) \<longleftrightarrow> (\<exists>u. s = u @ v \<and> sem ic (Star k) g u g')"
proof -
  have "(g', v) \<in> set (ms ic (Star k) g s) \<longleftrightarrow>
        g' = g \<and> (\<exists>n \<le> length (takeWhile (cls_ok k) s). v = drop n s)"
    by (simp only: ms.simps in_map_rev_upt) auto
  also have "\<dots> \<longleftrightarrow> g' = g \<and> (\<exists>u. s = u @ v \<and> list_all (cls_ok k) u)"
    by (simp only: drop_prefix_class)
  finally show ?thesis by auto
qed

lemma ms_sem_LazyStar:
  "(g', v) \<in> set (ms ic (LazyStar k) g s) \<longleftrightarrow> (\<exists>u. s = u @ v \<and> sem ic (LazyStar k) g u g')"
proof -
  have "(g', v) \<in> set (ms ic (LazyStar k) g s) \<longleftrightarrow>
        g' = g \<and> (\<exists>n \<le> length (takeWhile (cls_ok k) s). v = drop n s)"
    by (simp only: ms.simps in_map_upt) auto
  also have "\<dots> \<longleftrightarrow> g' = g \<and> (\<exists>u. s = u @ v \<and> list_all (cls_ok k) u)"
    by (simp only: drop_prefix_class)
  finally show ?thesis by auto
qed


lemma drop_prefix_class1:
  "(\<exists>n. 1 \<le> n \<and> n \<le> length (takeWhile P s) \<and> v = drop n s)
     \<longleftrightarrow> (\<exists>u. s = u @ v \<and> u \<noteq> [] \<and> list_all P u)" (is "?L \<longleftrightarrow> ?R")
proof
  assume ?L
  then obtain n where n: "1 \<le> n" "n \<le> length (takeWhile P s)" "v = drop n s" by blast
  then have "\<exists>m \<le> length (takeWhile P s). v = drop m s" by blast
  then obtain u where u: "s = u @ v" "list_all P u"
    using drop_prefix_class[of P s v] by blast
  have ns: "n \<le> length s" using n(2) length_takeWhile_le[of P s] by linarith
  have "length v = length s - n" using n(3) by simp
  moreover have "length s = length u + length v" using u(1) by simp
  ultimately have "length u = n" using ns by linarith
  then have "u \<noteq> []" using n(1) by auto
  then show ?R using u by blast
next
  assume ?R
  then obtain u where u: "s = u @ v" "u \<noteq> []" "list_all P u" by blast
  have "takeWhile P s = u @ takeWhile P v"
    using u by (simp add: list_all_iff takeWhile_append2)
  then have "length u \<le> length (takeWhile P s)" by simp
  moreover have "v = drop (length u) s" using u(1) by simp
  moreover have "1 \<le> length u" using u(2) by (cases u) simp_all
  ultimately show ?L by blast
qed

lemma ms_sem_Plus:
  "(g', v) \<in> set (ms ic (Plus k) g s) \<longleftrightarrow> (\<exists>u. s = u @ v \<and> sem ic (Plus k) g u g')"
proof -
  have "(g', v) \<in> set (ms ic (Plus k) g s) \<longleftrightarrow>
        g' = g \<and> (\<exists>n. 1 \<le> n \<and> n \<le> length (takeWhile (cls_ok k) s) \<and> v = drop n s)"
    by (simp only: ms.simps in_map_rev_upt) auto
  also have "\<dots> \<longleftrightarrow> g' = g \<and> (\<exists>u. s = u @ v \<and> u \<noteq> [] \<and> list_all (cls_ok k) u)"
    by (simp only: drop_prefix_class1)
  finally show ?thesis by auto
qed


lemma in_ms_Cat:
  "(g', v) \<in> set (ms ic (Cat r1 r2) g s) \<longleftrightarrow>
     (\<exists>g1 s1. (g1, s1) \<in> set (ms ic r1 g s) \<and> (g', v) \<in> set (ms ic r2 g1 s1))"
  by (simp only: ms.simps set_concat set_map) (simp add: split_def Bex_def)

lemma in_ms_Grp:
  "(g', v) \<in> set (ms ic (Grp i r) g s) \<longleftrightarrow>
     (\<exists>g1. (g1, v) \<in> set (ms ic r g s) \<and> g' = g1(i \<mapsto> take (length s - length v) s))"
  by (simp only: ms.simps set_map image_iff Bex_def split_paired_Ex prod.case prod.inject) blast

lemma ms_sem:
  "(g', v) \<in> set (ms ic r g s) \<longleftrightarrow> (\<exists>u. s = u @ v \<and> sem ic r g u g')"
proof (induction r arbitrary: g s g' v)
  case (Str p)
  show ?case by (rule ms_sem_Str)
next
  case (Atom k)
  show ?case by (rule ms_sem_Atom)
next
  case (Cat r1 r2)
  show ?case
  proof
    assume "(g', v) \<in> set (ms ic (Cat r1 r2) g s)"
    then obtain g1 s1 where a: "(g1, s1) \<in> set (ms ic r1 g s)" "(g', v) \<in> set (ms ic r2 g1 s1)"
      unfolding in_ms_Cat by blast
    from a(1) obtain u1 where u1: "s = u1 @ s1" "sem ic r1 g u1 g1" using Cat.IH(1) by blast
    from a(2) obtain u2 where u2: "s1 = u2 @ v" "sem ic r2 g1 u2 g'" using Cat.IH(2) by blast
    have "s = (u1 @ u2) @ v" using u1 u2 by simp
    moreover have "sem ic (Cat r1 r2) g (u1 @ u2) g'" using u1(2) u2(2) by (simp only: sem.simps) blast
    ultimately show "\<exists>u. s = u @ v \<and> sem ic (Cat r1 r2) g u g'" by blast
  next
    assume "\<exists>u. s = u @ v \<and> sem ic (Cat r1 r2) g u g'"
    then obtain u where u: "s = u @ v" "sem ic (Cat r1 r2) g u g'" by blast
    from u(2) obtain u1 u2 g1 where b: "u = u1 @ u2" "sem ic r1 g u1 g1" "sem ic r2 g1 u2 g'"
      by (simp only: sem.simps) blast
    have "s = u1 @ (u2 @ v)" using u(1) b(1) by simp
    then have "(g1, u2 @ v) \<in> set (ms ic r1 g s)" using b(2) Cat.IH(1) by blast
    moreover have "(g', v) \<in> set (ms ic r2 g1 (u2 @ v))" using b(3) Cat.IH(2) by blast
    ultimately show "(g', v) \<in> set (ms ic (Cat r1 r2) g s)" unfolding in_ms_Cat by blast
  qed
next
  case (Or r1 r2)
  have "(g', v) \<in> set (ms ic (Or r1 r2) g s) \<longleftrightarrow>
        (g', v) \<in> set (ms ic r1 g s) \<or> (g', v) \<in> set (ms ic r2 g s)" by simp
  also have "\<dots> \<longleftrightarrow> (\<exists>u. s = u @ v \<and> sem ic r1 g u g') \<or> (\<exists>u. s = u @ v \<and> sem ic r2 g u g')"
    by (simp only: Or.IH)
  finally show ?case by (simp only: sem.simps) blast
next
  case (Star k)
  show ?case by (rule ms_sem_Star)
next
  case (Plus k)
  show ?case by (rule ms_sem_Plus)
next
  case (LazyStar k)
  show ?case by (rule ms_sem_LazyStar)
next
  case (Grp i r)
  show ?case
  proof
    assume "(g', v) \<in> set (ms ic (Grp i r) g s)"
    then obtain g1 where a: "(g1, v) \<in> set (ms ic r g s)" "g' = g1(i \<mapsto> take (length s - length v) s)"
      unfolding in_ms_Grp by blast
    from a(1) obtain u where u: "s = u @ v" "sem ic r g u g1" using Grp.IH by blast
    have "take (length s - length v) s = u" using u(1) by simp
    then have "sem ic (Grp i r) g u g'" using a(2) u(2) by (simp only: sem.simps) blast
    then show "\<exists>u. s = u @ v \<and> sem ic (Grp i r) g u g'" using u(1) by blast
  next
    assume "\<exists>u. s = u @ v \<and> sem ic (Grp i r) g u g'"
    then obtain u where u: "s = u @ v" "sem ic (Grp i r) g u g'" by blast
    from u(2) obtain g1 where b: "sem ic r g u g1" "g' = g1(i \<mapsto> u)"
      by (simp only: sem.simps) blast
    have "(g1, v) \<in> set (ms ic r g s)" using u(1) b(1) Grp.IH by blast
    moreover have "take (length s - length v) s = u" using u(1) by simp
    ultimately show "(g', v) \<in> set (ms ic (Grp i r) g s)" unfolding in_ms_Grp using b(2) by blast
  qed
qed

lemma ms_nonempty_iff:
  "ms ic r g s \<noteq> [] \<longleftrightarrow> (\<exists>u v g'. s = u @ v \<and> sem ic r g u g')"
proof -
  have "ms ic r g s \<noteq> [] \<longleftrightarrow> (\<exists>g' v. (g', v) \<in> set (ms ic r g s))"
    by (cases "ms ic r g s") auto
  also have "\<dots> \<longleftrightarrow> (\<exists>g' v u. s = u @ v \<and> sem ic r g u g')"
    by (simp only: ms_sem)
  finally show ?thesis by blast
qed

lemma re_search_Some_iff:
  "re_search ic r s \<noteq> None \<longleftrightarrow> (\<exists>pre u post g'. s = pre @ u @ post \<and> sem ic r Map.empty u g')"
proof (induction s)
  case Nil
  have "re_search ic r [] \<noteq> None \<longleftrightarrow> ms ic r Map.empty [] \<noteq> []"
    by (simp split: list.splits)
  also have "\<dots> \<longleftrightarrow> (\<exists>u v g'. [] = u @ v \<and> sem ic r Map.empty u g')"
    by (rule ms_nonempty_iff)
  finally show ?case by auto
next
  case (Cons c cs)
  have "re_search ic r (c # cs) \<noteq> None \<longleftrightarrow>
        ms ic r Map.empty (c # cs) \<noteq> [] \<or> re_search ic r cs \<noteq> None"
    by (simp split: list.splits)
  also have "\<dots> \<longleftrightarrow> (\<exists>u v g'. c # cs = u @ v \<and> sem ic r Map.empty u g') \<or>
        (\<exists>pre u post g'. cs = pre @ u @ post \<and> sem ic r Map.empty u g')"
    by (simp only: ms_nonempty_iff Cons.IH)
  also have "\<dots> \<longleftrightarrow> (\<exists>pre u post g'. c # cs = pre @ u @ post \<and> sem ic r Map.empty u g')"
    (is "?A \<or> ?B \<longleftrightarrow> ?C")
  proof
    assume "?A \<or> ?B"
    then show ?C
    proof
      assume ?A
      then obtain u v g' where "c # cs = [] @ u @ v" "sem ic r Map.empty u g'" by auto
      then show ?C by blast
    next
      assume ?B
      then obtain pre u post g' where "cs = pre @ u @ post" "sem ic r Map.empty u g'" by blast
      then have "c # cs = (c # pre) @ u @ post" "sem ic r Map.empty u g'" by simp_all
      then show ?C by blast
    qed
  next
    assume ?C
    then obtain pre u post g' where h: "c # cs = pre @ u @ post" "sem ic r Map.empty u g'" by blast
    show "?A \<or> ?B"
    proof (cases pre)
      case Nil
      then have "c # cs = u @ post" using h(1) by simp
      then show ?thesis using h(2) by blast
    next
      case (Cons x pre')
      then have "cs = pre' @ u @ post" using h(1) by simp
      then show ?thesis using h(2) by blast
    qed
  qed
  finally show ?case .
qed

lemma sem_Str: "sem ic (Str p) g u g' \<longleftrightarrow> g' = g \<and> lit_eq ic p u"
  using lit_eq_length[of ic p u] by auto

lemma sem_modifier_rx:
  "sem ic modifier_rx g m g' \<longleftrightarrow> g' = g(1 \<mapsto> m) \<and> modifier ic m"
  unfolding modifier_rx_def modifier_def sem.simps(8) sem.simps(4) sem_Str by blast

lemma all_Dot: "list_all (cls_ok Dot) u \<longleftrightarrow> CHR 0x0A \<notin> set u"
  by (induction u) auto

lemma all_Word: "list_all (cls_ok Word) u \<longleftrightarrow> list_all is_word u"
  by (induction u) auto

lemma all_Space: "list_all (cls_ok Space) u \<longleftrightarrow> list_all is_space u"
  by (induction u) auto

lemma sem_Cat_Str:
  "sem ic (Cat (Str p) r) g u g' \<longleftrightarrow>
     (\<exists>a b. u = a @ b \<and> lit_eq ic p a \<and> sem ic r g b g')"
  unfolding sem.simps(3) sem_Str by blast

lemma fold_code_paren: "fold_code c = 40 \<longleftrightarrow> c = CHR ''(''"
proof
  assume "fold_code c = 40"
  then have "(of_char c :: nat) = of_char CHR ''(''"
    by (simp add: fold_code_def code_def Let_def split: if_splits)
  then show "c = CHR ''(''" by (simp only: of_char_eq_iff)
next
  assume "c = CHR ''(''"
  then show "fold_code c = 40" by (simp add: fold_code_def code_def)
qed

lemma lit_eq_paren: "lit_eq ic [CHR ''(''] p \<longleftrightarrow> p = [CHR ''('']"
proof (cases ic)
  case False
  then show ?thesis by (auto simp: lit_eq_def)
next
  case True
  have "casefold p = [40] \<longleftrightarrow> p = [CHR ''('']"
    by (cases p) (auto simp: casefold_def fold_code_paren)
  moreover have "casefold [CHR ''(''] = [40]" by (simp add: casefold_def fold_code_def code_def)
  ultimately show ?thesis using True by (simp add: lit_eq_def)
qed

lemma sem_CatE:
  assumes "sem ic (Cat r1 r2) g u g'"
  obtains u1 u2 g1 where "u = u1 @ u2" "sem ic r1 g u1 g1" "sem ic r2 g1 u2 g'"
  using assms by auto

lemma sem_CatI: "sem ic r1 g u1 g1 \<Longrightarrow> sem ic r2 g1 u2 g' \<Longrightarrow> sem ic (Cat r1 r2) g (u1 @ u2) g'"
  by auto

lemma sem_StarD: "sem ic (Star k) g u g' \<Longrightarrow> g' = g \<and> list_all (cls_ok k) u"
  by simp

lemma sem_PlusD: "sem ic (Plus k) g u g' \<Longrightarrow> g' = g \<and> u \<noteq> [] \<and> list_all (cls_ok k) u"
  by simp

lemma sem_StrD: "sem ic (Str p) g u g' \<Longrightarrow> g' = g \<and> lit_eq ic p u"
  by simp

lemma sem_StrI: "lit_eq ic p u \<Longrightarrow> sem ic (Str p) g u g"
  by (simp add: lit_eq_length)

lemma sem_test_method_rx:
  "sem ic test_method_rx g u g' \<longleftrightarrow>
     (\<exists>m mid t w sp. u = m @ mid @ t @ w @ sp @ [CHR ''(''] \<and> modifier ic m \<and>
        CHR 0x0A \<notin> set mid \<and> lit_eq ic ''test'' t \<and> w \<noteq> [] \<and> list_all is_word w \<and>
        list_all is_space sp \<and> g' = g(1 \<mapsto> m))"
  (is "?L \<longleftrightarrow> ?R")
proof
  let ?t0 = "Cat (Star Space) (Str [CHR ''(''])"
  let ?t1 = "Cat (Plus Word) ?t0"
  let ?t2 = "Cat (Str ''test'') ?t1"
  let ?t3 = "Cat (Star Dot) ?t2"
  assume ?L
  then have "sem ic (Cat modifier_rx ?t3) g u g'" by (simp only: test_method_rx_def)
  then obtain m r1 g1 where 1: "u = m @ r1" "sem ic modifier_rx g m g1" "sem ic ?t3 g1 r1 g'"
    by (rule sem_CatE)
  from 1(2) have m: "g1 = g(1 \<mapsto> m)" "modifier ic m" by (simp_all only: sem_modifier_rx)
  from 1(3) obtain mid r2 g2 where 2: "r1 = mid @ r2" "sem ic (Star Dot) g1 mid g2" "sem ic ?t2 g2 r2 g'"
    by (rule sem_CatE)
  from 2(2) have mid: "g2 = g1" "CHR 0x0A \<notin> set mid" using sem_StarD all_Dot by blast+
  from 2(3) obtain t r3 g3 where 3: "r2 = t @ r3" "sem ic (Str ''test'') g2 t g3" "sem ic ?t1 g3 r3 g'"
    by (rule sem_CatE)
  from 3(2) have t: "g3 = g2" "lit_eq ic ''test'' t" using sem_StrD by blast+
  from 3(3) obtain w r4 g4 where 4: "r3 = w @ r4" "sem ic (Plus Word) g3 w g4" "sem ic ?t0 g4 r4 g'"
    by (rule sem_CatE)
  from 4(2) have w: "g4 = g3" "w \<noteq> []" "list_all is_word w" using sem_PlusD all_Word by blast+
  from 4(3) obtain sp r5 g5 where 5: "r4 = sp @ r5" "sem ic (Star Space) g4 sp g5"
      "sem ic (Str [CHR ''('']) g5 r5 g'"
    by (rule sem_CatE)
  from 5(2) have sp: "g5 = g4" "list_all is_space sp" using sem_StarD all_Space by blast+
  from 5(3) have p: "g' = g5" "r5 = [CHR ''('']" using sem_StrD lit_eq_paren by blast+
  have "u = m @ mid @ t @ w @ sp @ [CHR ''('']"
    by (simp only: 1(1) 2(1) 3(1) 4(1) 5(1) p(2))
  moreover have "g' = g(1 \<mapsto> m)" by (simp only: p(1) sp(1) w(1) t(1) mid(1) m(1))
  ultimately show ?R using m(2) mid(2) t(2) w(2,3) sp(2) by blast
next
  let ?t0 = "Cat (Star Space) (Str [CHR ''(''])"
  let ?t1 = "Cat (Plus Word) ?t0"
  let ?t2 = "Cat (Str ''test'') ?t1"
  let ?t3 = "Cat (Star Dot) ?t2"
  let ?g = "g(1 \<mapsto> m)"
  assume ?R
  then obtain m mid t w sp where h: "u = m @ mid @ t @ w @ sp @ [CHR ''('']" "modifier ic m"
      "CHR 0x0A \<notin> set mid" "lit_eq ic ''test'' t" "w \<noteq> []" "list_all is_word w"
      "list_all is_space sp" "g' = g(1 \<mapsto> m)" by blast
  have p: "sem ic (Str [CHR ''('']) g' [CHR ''(''] g'" by (rule sem_StrI) (simp only: lit_eq_paren)
  have s: "sem ic (Star Space) g' sp g'" using h(7) by (simp add: all_Space)
  have a0: "sem ic ?t0 g' (sp @ [CHR ''('']) g'" using s p by (rule sem_CatI)
  have w: "sem ic (Plus Word) g' w g'" using h(5,6) by (simp add: all_Word)
  have a1: "sem ic ?t1 g' (w @ sp @ [CHR ''('']) g'" using w a0 by (rule sem_CatI)
  have t: "sem ic (Str ''test'') g' t g'" using h(4) by (rule sem_StrI)
  have a2: "sem ic ?t2 g' (t @ w @ sp @ [CHR ''('']) g'" using t a1 by (rule sem_CatI)
  have d: "sem ic (Star Dot) g' mid g'" using h(3) by (simp add: all_Dot)
  have a3: "sem ic ?t3 g' (mid @ t @ w @ sp @ [CHR ''('']) g'" using d a2 by (rule sem_CatI)
  have md: "sem ic modifier_rx g m g'" using h(2,8) by (simp only: sem_modifier_rx)
  have "sem ic (Cat modifier_rx ?t3) g (m @ mid @ t @ w @ sp @ [CHR ''('']) g'"
    using md a3 by (rule sem_CatI)
  then show ?L by (simp only: test_method_rx_def h(1))
qed

section \<open>Which match the search returns\<close>

lemma hd_concat_map:
  assumes "concat (map f xs) \<noteq> []"
  shows "\<exists>ys x zs. xs = ys @ x # zs \<and> (\<forall>y \<in> set ys. f y = []) \<and> f x \<noteq> [] \<and>
           hd (concat (map f xs)) = hd (f x)"
  using assms
proof (induction xs)
  case Nil
  then show ?case by simp
next
  case (Cons a xs)
  show ?case
  proof (cases "f a = []")
    case True
    then have "concat (map f xs) \<noteq> []" using Cons.prems by simp
    then obtain ys x zs where h: "xs = ys @ x # zs" "\<forall>y \<in> set ys. f y = []" "f x \<noteq> []"
        "hd (concat (map f xs)) = hd (f x)"
      using Cons.IH by blast
    have "a # xs = (a # ys) @ x # zs \<and> (\<forall>y \<in> set (a # ys). f y = []) \<and> f x \<noteq> [] \<and>
           hd (concat (map f (a # xs))) = hd (f x)" using h True by simp
    then show ?thesis by (intro exI)
  next
    case False
    have "a # xs = [] @ a # xs \<and> (\<forall>y \<in> set []. f y = []) \<and> f a \<noteq> [] \<and>
           hd (concat (map f (a # xs))) = hd (f a)" using False by simp
    then show ?thesis by (intro exI)
  qed
qed

lemma re_search_first:
  assumes "re_search ic r s = Some g"
  shows "\<exists>pre rest. s = pre @ rest \<and> ms ic r Map.empty rest \<noteq> [] \<and>
           g = fst (hd (ms ic r Map.empty rest)) \<and>
           (\<forall>pre' rest'. s = pre' @ rest' \<and> length pre' < length pre \<longrightarrow>
              ms ic r Map.empty rest' = [])"
  using assms
proof (induction s)
  case Nil
  then have "ms ic r Map.empty [] \<noteq> []" "g = fst (hd (ms ic r Map.empty []))"
    by (auto split: list.splits)
  then have "[] = [] @ [] \<and> ms ic r Map.empty [] \<noteq> [] \<and> g = fst (hd (ms ic r Map.empty [])) \<and>
      (\<forall>pre' rest'. [] = pre' @ rest' \<and> length pre' < length ([]::string) \<longrightarrow>
              ms ic r Map.empty rest' = [])" by simp
  then show ?case by (intro exI)
next
  case (Cons c cs)
  show ?case
  proof (cases "ms ic r Map.empty (c # cs)")
    case Nil
    then have "re_search ic r cs = Some g" using Cons.prems by simp
    then obtain pre rest where h: "cs = pre @ rest" "ms ic r Map.empty rest \<noteq> []"
        "g = fst (hd (ms ic r Map.empty rest))"
        "\<forall>pre' rest'. cs = pre' @ rest' \<and> length pre' < length pre \<longrightarrow> ms ic r Map.empty rest' = []"
      using Cons.IH by blast
    have e: "ms ic r Map.empty rest' = []"
      if "c # cs = pre' @ rest' \<and> length pre' < length (c # pre)" for pre' rest'
    proof (cases pre')
      case Nil
      then show ?thesis using that \<open>ms ic r Map.empty (c # cs) = []\<close> by simp
    next
      case (Cons x p)
      then have "cs = p @ rest'" "length p < length pre" using that by simp_all
      then show ?thesis using h(4) by blast
    qed
    have "c # cs = (c # pre) @ rest \<and> ms ic r Map.empty rest \<noteq> [] \<and>
           g = fst (hd (ms ic r Map.empty rest)) \<and>
           (\<forall>pre' rest'. c # cs = pre' @ rest' \<and> length pre' < length (c # pre) \<longrightarrow>
              ms ic r Map.empty rest' = [])"
      using h(1,2,3) e by (simp only: append_Cons simp_thms) blast
    then show ?thesis by (intro exI)
  next
    case (Cons x xs)
    then have "g = fst (hd (ms ic r Map.empty (c # cs)))" using Cons.prems by (cases x) simp
    moreover have "ms ic r Map.empty (c # cs) \<noteq> []" using Cons by simp
    ultimately have "c # cs = [] @ (c # cs) \<and> ms ic r Map.empty (c # cs) \<noteq> [] \<and>
           g = fst (hd (ms ic r Map.empty (c # cs))) \<and>
           (\<forall>pre' rest'. c # cs = pre' @ rest' \<and> length pre' < length ([]::string) \<longrightarrow>
              ms ic r Map.empty rest' = [])" by simp
    then show ?thesis by (intro exI)
  qed
qed

lemma take_length_takeWhile: "take (length (takeWhile P xs)) xs = takeWhile P xs"
  by (induction xs) auto

lemma hd_dropWhile_not: "dropWhile P xs = [] \<or> \<not> P (hd (dropWhile P xs))"
  using hd_dropWhile[of P xs] by blast

lemma sem_test_name_rx:
  "sem True test_name_rx g u g' \<longleftrightarrow>
     (\<exists>t w. u = t @ w \<and> casefold t = casefold ''test'' \<and> w \<noteq> [] \<and> list_all is_word w \<and>
        g' = g(1 \<mapsto> u))"
  unfolding test_name_rx_def sem.simps(8) sem_Cat_Str sem.simps(6) all_Word lit_eq_def
  by auto

lemma cls_ok_Word: "cls_ok Word = is_word"
  by (rule ext) simp

lemma ms_Str_test:
  "ms True (Str ''test'') g s =
     (if lit_eq True ''test'' (take 4 s) then [(g, drop 4 s)] else [])"
proof -
  have "length ''test'' = 4" by simp
  then show ?thesis unfolding ms.simps(1) by (simp only:)
qed

lemma ms_test_name_rx:
  "ms True test_name_rx g s =
     (if lit_eq True ''test'' (take 4 s)
      then map (\<lambda>n. (g(1 \<mapsto> take (length s - length (drop n (drop 4 s))) s), drop n (drop 4 s)))
             (rev [1 ..< Suc (length (takeWhile is_word (drop 4 s)))])
      else [])"
proof (cases "lit_eq True ''test'' (take 4 s)")
  case True
  have "ms True (Cat (Str ''test'') (Plus Word)) g s = ms True (Plus Word) g (drop 4 s)"
    unfolding ms.simps(3) ms_Str_test using True by simp
  also have "\<dots> = map (\<lambda>n. (g, drop n (drop 4 s)))
                     (rev [1 ..< Suc (length (takeWhile is_word (drop 4 s)))])"
    unfolding ms.simps(6) cls_ok_Word ..
  finally show ?thesis
    unfolding test_name_rx_def ms.simps(8) using True by (simp only: map_map comp_def prod.case if_True)
next
  case False
  have "ms True (Cat (Str ''test'') (Plus Word)) g s = []"
    unfolding ms.simps(3) ms_Str_test using False by simp
  then show ?thesis unfolding test_name_rx_def ms.simps(8) using False by simp
qed

lemma ms_test_name_hd:
  assumes "ms True test_name_rx g s \<noteq> []"
  shows "casefold (take 4 s) = casefold ''test'' \<and> takeWhile is_word (drop 4 s) \<noteq> [] \<and>
         fst (hd (ms True test_name_rx g s)) 1 = Some (take 4 s @ takeWhile is_word (drop 4 s))"
proof -
  let ?N = "length (takeWhile is_word (drop 4 s))"
  have le: "lit_eq True ''test'' (take 4 s)"
    using assms unfolding ms_test_name_rx by (simp split: if_splits del: upt_Suc)
  then have cf: "casefold (take 4 s) = casefold ''test''" by (simp add: lit_eq_def)
  have l4: "length (take 4 s) = 4" using lit_eq_length[OF le] by simp
  then have s4: "4 \<le> length s" by simp
  have "rev [1 ..< Suc ?N] \<noteq> []"
    using assms le unfolding ms_test_name_rx by (simp del: upt_Suc)
  then have ne: "takeWhile is_word (drop 4 s) \<noteq> []" by (simp del: upt_Suc)
  then have "0 < ?N" by simp
  then have N: "1 \<le> ?N" by linarith
  have r: "rev [1 ..< Suc ?N] = ?N # rev [1 ..< ?N]" using N by simp
  have "fst (hd (ms True test_name_rx g s)) 1 =
          Some (take (length s - length (drop ?N (drop 4 s))) s)"
    unfolding ms_test_name_rx by (simp only: le if_True r list.map list.sel fst_conv fun_upd_same)
  moreover have "?N \<le> length (drop 4 s)" by (rule length_takeWhile_le)
  then have "length s - length (drop ?N (drop 4 s)) = 4 + ?N" using s4 by simp
  moreover have "take (4 + ?N) s = take 4 s @ take ?N (drop 4 s)" by (rule take_add)
  moreover have "take ?N (drop 4 s) = takeWhile is_word (drop 4 s)" by (rule take_length_takeWhile)
  ultimately have "fst (hd (ms True test_name_rx g s)) 1 = Some (take 4 s @ takeWhile is_word (drop 4 s))"
    by (simp only:)
  with cf ne show ?thesis by blast
qed

lemma prefix_form_search:
  "re_search True test_name_rx c \<noteq> None \<longleftrightarrow> (\<exists>pre t w post. prefix_form c pre t w post)"
  (is "?L \<longleftrightarrow> ?R")
proof
  assume ?L
  then obtain pre u post g' where 1: "c = pre @ u @ post" "sem True test_name_rx Map.empty u g'"
    unfolding re_search_Some_iff by blast
  from 1(2) obtain t w where 2: "u = t @ w" "casefold t = casefold ''test''" "w \<noteq> []" "list_all is_word w"
    unfolding sem_test_name_rx by blast
  have "prefix_form c pre t w post" unfolding prefix_form_def using 1(1) 2 by simp
  then show ?R by blast
next
  assume ?R
  then obtain pre t w post where 2: "c = pre @ (t @ w) @ post" "casefold t = casefold ''test''"
      "w \<noteq> []" "list_all is_word w"
    unfolding prefix_form_def by auto
  have "sem True test_name_rx Map.empty (t @ w) (Map.empty(1 \<mapsto> t @ w))"
    unfolding sem_test_name_rx using 2(2,3,4) by blast
  with 2(1) show ?L unfolding re_search_Some_iff by blast
qed

lemma prefix_form_name:
  assumes "re_search True test_name_rx c = Some g"
  shows "\<exists>pre t w post. prefix_form c pre t w post \<and> group g 1 = t @ w \<and>
           (post = [] \<or> \<not> is_word (hd post)) \<and>
           (\<forall>pre' t' w' post'. prefix_form c pre' t' w' post' \<longrightarrow> length pre \<le> length pre')"
proof -
  obtain pre rest where h: "c = pre @ rest" "ms True test_name_rx Map.empty rest \<noteq> []"
      "g = fst (hd (ms True test_name_rx Map.empty rest))"
      "\<forall>pre' rest'. c = pre' @ rest' \<and> length pre' < length pre \<longrightarrow>
         ms True test_name_rx Map.empty rest' = []"
    using re_search_first[OF assms] by blast
  let ?t = "take 4 rest" and ?w = "takeWhile is_word (drop 4 rest)"
  let ?post = "dropWhile is_word (drop 4 rest)"
  have k: "casefold ?t = casefold ''test''" "?w \<noteq> []" "g 1 = Some (?t @ ?w)"
    using ms_test_name_hd[OF h(2)] h(3) by simp_all
  have "rest = ?t @ ?w @ ?post" by simp
  then have c: "c = pre @ ?t @ ?w @ ?post" using h(1) by simp
  have w: "list_all is_word ?w" by (simp add: list_all_iff) (meson set_takeWhileD)
  have pf: "prefix_form c pre ?t ?w ?post"
    unfolding prefix_form_def using c k(1,2) w by blast
  have gr: "group g 1 = ?t @ ?w" using k(3) by (simp add: group_def)
  have mx: "?post = [] \<or> \<not> is_word (hd ?post)" by (rule hd_dropWhile_not)
  have first: "length pre \<le> length pre'" if "prefix_form c pre' t' w' post'" for pre' t' w' post'
  proof (rule ccontr)
    assume "\<not> length pre \<le> length pre'"
    then have lt: "length pre' < length pre" by simp
    from that have c': "c = pre' @ (t' @ w') @ post'" and v: "casefold t' = casefold ''test''"
        "w' \<noteq> []" "list_all is_word w'"
      unfolding prefix_form_def by auto
    have "sem True test_name_rx Map.empty (t' @ w') (Map.empty(1 \<mapsto> t' @ w'))"
      unfolding sem_test_name_rx using v by blast
    then have "ms True test_name_rx Map.empty ((t' @ w') @ post') \<noteq> []"
      unfolding ms_nonempty_iff by blast
    moreover have "ms True test_name_rx Map.empty ((t' @ w') @ post') = []"
      using h(4) c' lt by blast
    ultimately show False by contradiction
  qed
  from pf gr mx first show ?thesis by blast
qed

lemma first_upt:
  assumes "concat (map f [0 ..< k]) \<noteq> []"
  shows "\<exists>n < k. f n \<noteq> [] \<and> (\<forall>j < n. f j = []) \<and> hd (concat (map f [0 ..< k])) = hd (f n)"
  using assms
proof (induction k)
  case 0
  then show ?case by simp
next
  case (Suc k)
  have e: "concat (map f [0 ..< Suc k]) = concat (map f [0 ..< k]) @ f k" by simp
  show ?case
  proof (cases "concat (map f [0 ..< k]) = []")
    case True
    then have z: "\<forall>j < k. f j = []" by simp
    have "f k \<noteq> []" using Suc.prems True unfolding e by simp
    moreover have "hd (concat (map f [0 ..< Suc k])) = hd (f k)"
      unfolding e by (simp only: True append_Nil)
    ultimately have "k < Suc k \<and> f k \<noteq> [] \<and> (\<forall>j < k. f j = []) \<and>
        hd (concat (map f [0 ..< Suc k])) = hd (f k)" using z by simp
    then show ?thesis by (intro exI)
  next
    case False
    then obtain n where n: "n < k" "f n \<noteq> []" "\<forall>j < n. f j = []"
        "hd (concat (map f [0 ..< k])) = hd (f n)"
      using Suc.IH by blast
    have "hd (concat (map f [0 ..< Suc k])) = hd (f n)"
      unfolding e using hd_append2[OF False, of "f k"] n(4) by simp
    then have "n < Suc k \<and> f n \<noteq> [] \<and> (\<forall>j < n. f j = []) \<and>
        hd (concat (map f [0 ..< Suc k])) = hd (f n)" using n by simp
    then show ?thesis by (intro exI)
  qed
qed

lemma modifier_False: "modifier False m \<longleftrightarrow> m \<in> {''public'', ''private'', ''protected''}"
  by (auto simp: modifier_def lit_eq_def)

lemma modifier_unique:
  assumes "m \<in> {''public'', ''private'', ''protected''}"
    and "m' \<in> {''public'', ''private'', ''protected''}"
    and "m @ a = m' @ b"
  shows "m = m'"
  using assms by auto

lemma sem_name_tail:
  "sem ic (Cat (Grp 2 (Plus Word)) (Cat (Star Space) (Str [CHR ''('']))) g u g' \<longleftrightarrow>
     (\<exists>w sp. u = w @ sp @ [CHR ''(''] \<and> w \<noteq> [] \<and> list_all is_word w \<and> list_all is_space sp \<and>
        g' = g(2 \<mapsto> w))"
  (is "?L \<longleftrightarrow> ?R")
proof
  assume ?L
  then obtain w r g1 where 1: "u = w @ r" "sem ic (Grp 2 (Plus Word)) g w g1"
      "sem ic (Cat (Star Space) (Str [CHR ''(''])) g1 r g'"
    by (rule sem_CatE)
  from 1(2) have w: "g1 = g(2 \<mapsto> w)" "w \<noteq> []" "list_all is_word w"
    by (auto simp: all_Word)
  from 1(3) obtain sp p g2 where 2: "r = sp @ p" "sem ic (Star Space) g1 sp g2"
      "sem ic (Str [CHR ''('']) g2 p g'"
    by (rule sem_CatE)
  from 2(2) have sp: "g2 = g1" "list_all is_space sp" using sem_StarD all_Space by blast+
  from 2(3) have p: "g' = g2" "p = [CHR ''('']" using sem_StrD lit_eq_paren by blast+
  have "u = w @ sp @ [CHR ''(''] \<and> w \<noteq> [] \<and> list_all is_word w \<and> list_all is_space sp \<and>
        g' = g(2 \<mapsto> w)"
    using 1(1) 2(1) w sp p by simp
  then show ?R by (intro exI)
next
  assume ?R
  then obtain w sp where h: "u = w @ sp @ [CHR ''('']" "w \<noteq> []" "list_all is_word w"
      "list_all is_space sp" "g' = g(2 \<mapsto> w)" by blast
  have a: "sem ic (Grp 2 (Plus Word)) g w g'" using h(2,3,5) by (simp add: all_Word)
  have p: "sem ic (Str [CHR ''('']) g' [CHR ''(''] g'" by (rule sem_StrI) (simp only: lit_eq_paren)
  have s: "sem ic (Star Space) g' sp g'" using h(4) by (simp add: all_Space)
  have "sem ic (Cat (Star Space) (Str [CHR ''(''])) g' (sp @ [CHR ''('']) g'"
    using s p by (rule sem_CatI)
  with a have "sem ic (Cat (Grp 2 (Plus Word)) (Cat (Star Space) (Str [CHR ''('']))) g
      (w @ sp @ [CHR ''('']) g'" by (rule sem_CatI)
  then show ?L unfolding h(1) .
qed

lemma sem_method_name_rx:
  "sem False method_name_rx g u g' \<longleftrightarrow>
     (\<exists>m mid w sp. u = m @ mid @ w @ sp @ [CHR ''(''] \<and>
        m \<in> {''public'', ''private'', ''protected''} \<and> CHR 0x0A \<notin> set mid \<and>
        w \<noteq> [] \<and> list_all is_word w \<and> list_all is_space sp \<and> g' = g(1 \<mapsto> m, 2 \<mapsto> w))"
  (is "?L \<longleftrightarrow> ?R")
proof
  let ?t2 = "Cat (Grp 2 (Plus Word)) (Cat (Star Space) (Str [CHR ''('']))"
  let ?t3 = "Cat (LazyStar Dot) ?t2"
  assume ?L
  then have "sem False (Cat modifier_rx ?t3) g u g'" by (simp only: method_name_rx_def)
  then obtain m r1 g1 where 1: "u = m @ r1" "sem False modifier_rx g m g1" "sem False ?t3 g1 r1 g'"
    by (rule sem_CatE)
  from 1(2) have m: "g1 = g(1 \<mapsto> m)" "m \<in> {''public'', ''private'', ''protected''}"
    by (simp_all only: sem_modifier_rx modifier_False)
  from 1(3) obtain mid r2 g2 where 2: "r1 = mid @ r2" "sem False (LazyStar Dot) g1 mid g2"
      "sem False ?t2 g2 r2 g'"
    by (rule sem_CatE)
  from 2(2) have mid: "g2 = g1" "CHR 0x0A \<notin> set mid" by (simp_all add: all_Dot)
  from 2(3) obtain w sp where 3: "r2 = w @ sp @ [CHR ''('']" "w \<noteq> []" "list_all is_word w"
      "list_all is_space sp" "g' = g2(2 \<mapsto> w)"
    unfolding sem_name_tail by blast
  have "u = m @ mid @ w @ sp @ [CHR ''(''] \<and>
        m \<in> {''public'', ''private'', ''protected''} \<and> CHR 0x0A \<notin> set mid \<and>
        w \<noteq> [] \<and> list_all is_word w \<and> list_all is_space sp \<and> g' = g(1 \<mapsto> m, 2 \<mapsto> w)"
    using 1(1) 2(1) 3 m mid by simp
  then show ?R by (intro exI)
next
  let ?t2 = "Cat (Grp 2 (Plus Word)) (Cat (Star Space) (Str [CHR ''('']))"
  let ?t3 = "Cat (LazyStar Dot) ?t2"
  assume ?R
  then obtain m mid w sp where h: "u = m @ mid @ w @ sp @ [CHR ''('']"
      "m \<in> {''public'', ''private'', ''protected''}" "CHR 0x0A \<notin> set mid"
      "w \<noteq> []" "list_all is_word w" "list_all is_space sp" "g' = g(1 \<mapsto> m, 2 \<mapsto> w)"
    by blast
  have a: "sem False modifier_rx g m (g(1 \<mapsto> m))"
    using h(2) by (simp only: sem_modifier_rx modifier_False simp_thms)
  have b: "sem False (LazyStar Dot) (g(1 \<mapsto> m)) mid (g(1 \<mapsto> m))"
    using h(3) by (simp add: all_Dot)
  have c: "sem False ?t2 (g(1 \<mapsto> m)) (w @ sp @ [CHR ''('']) g'"
    unfolding sem_name_tail using h(4,5,6,7) by blast
  have "sem False ?t3 (g(1 \<mapsto> m)) (mid @ w @ sp @ [CHR ''('']) g'"
    using b c by (rule sem_CatI)
  with a have "sem False (Cat modifier_rx ?t3) g (m @ mid @ w @ sp @ [CHR ''('']) g'"
    by (rule sem_CatI)
  then show ?L unfolding method_name_rx_def h(1) .
qed

lemma annotated_form_search:
  "re_search False method_name_rx c \<noteq> None \<longleftrightarrow>
     (\<exists>pre m mid w sp post. annotated_form c pre m mid w sp post)"
  (is "?L \<longleftrightarrow> ?R")
proof
  assume ?L
  then obtain pre u post g' where 1: "c = pre @ u @ post" "sem False method_name_rx Map.empty u g'"
    unfolding re_search_Some_iff by blast
  from 1(2) obtain m mid w sp where 2: "u = m @ mid @ w @ sp @ [CHR ''('']"
      "m \<in> {''public'', ''private'', ''protected''}" "CHR 0x0A \<notin> set mid"
      "w \<noteq> []" "list_all is_word w" "list_all is_space sp"
    unfolding sem_method_name_rx by blast
  have "annotated_form c pre m mid w sp post"
    unfolding annotated_form_def using 1(1) 2 by simp
  then show ?R by (intro exI)
next
  assume ?R
  then obtain pre m mid w sp post where 0: "c = pre @ m @ mid @ w @ sp @ [CHR ''(''] @ post"
      and 2: "m \<in> {''public'', ''private'', ''protected''}" "CHR 0x0A \<notin> set mid"
      "w \<noteq> []" "list_all is_word w" "list_all is_space sp"
    unfolding annotated_form_def by blast
  have 1: "c = pre @ (m @ mid @ w @ sp @ [CHR ''('']) @ post" unfolding 0 by simp
  have "sem False method_name_rx Map.empty (m @ mid @ w @ sp @ [CHR ''(''])
          (Map.empty(1 \<mapsto> m, 2 \<mapsto> w))"
    unfolding sem_method_name_rx using 2 by blast
  with 1 show ?L unfolding re_search_Some_iff by blast
qed

lemma ms_method_name_hd:
  assumes "ms False method_name_rx g0 s \<noteq> []"
  shows "\<exists>m mid w sp post.
           s = m @ mid @ w @ sp @ [CHR ''(''] @ post \<and>
           m \<in> {''public'', ''private'', ''protected''} \<and> CHR 0x0A \<notin> set mid \<and>
           w \<noteq> [] \<and> list_all is_word w \<and> list_all is_space sp \<and>
           fst (hd (ms False method_name_rx g0 s)) 2 = Some w \<and>
           (\<forall>m' mid' w' sp' post'.
              s = m' @ mid' @ w' @ sp' @ [CHR ''(''] @ post' \<and>
              m' \<in> {''public'', ''private'', ''protected''} \<and> CHR 0x0A \<notin> set mid' \<and>
              w' \<noteq> [] \<and> list_all is_word w' \<and> list_all is_space sp'
              \<longrightarrow> length mid \<le> length mid')"
proof -
  let ?t2 = "Cat (Grp 2 (Plus Word)) (Cat (Star Space) (Str [CHR ''('']))"
  let ?t3 = "Cat (LazyStar Dot) ?t2"
  let ?F = "\<lambda>(g1, s1). ms False ?t3 g1 s1"
  have E1: "ms False method_name_rx g0 s = concat (map ?F (ms False modifier_rx g0 s))"
    unfolding method_name_rx_def by (rule ms.simps(3))
  from assms obtain ys x zs where x: "ms False modifier_rx g0 s = ys @ x # zs" "?F x \<noteq> []"
      "hd (ms False method_name_rx g0 s) = hd (?F x)"
    unfolding E1 using hd_concat_map[of ?F "ms False modifier_rx g0 s"] by blast
  obtain g1 s1 where xe: "x = (g1, s1)" by (cases x)
  have "(g1, s1) \<in> set (ms False modifier_rx g0 s)" unfolding x(1) xe by simp
  then obtain m where m: "s = m @ s1" "sem False modifier_rx g0 m g1"
    unfolding ms_sem by blast
  from m(2) have g1: "g1 = g0(1 \<mapsto> m)" and mm: "m \<in> {''public'', ''private'', ''protected''}"
    by (simp_all only: sem_modifier_rx modifier_False)
  let ?N = "length (takeWhile (cls_ok Dot) s1)"
  let ?f = "\<lambda>n. ms False ?t2 g1 (drop n s1)"
  have "ms False ?t3 g1 s1 =
          concat (map (\<lambda>(g2, s2). ms False ?t2 g2 s2) (ms False (LazyStar Dot) g1 s1))"
    by (rule ms.simps(3))
  also have "ms False (LazyStar Dot) g1 s1 = map (\<lambda>n. (g1, drop n s1)) [0 ..< Suc ?N]"
    by (rule ms.simps(7))
  finally have E2: "ms False ?t3 g1 s1 = concat (map ?f [0 ..< Suc ?N])"
    by (simp only: map_map comp_def prod.case)
  have Fx: "?F x = concat (map ?f [0 ..< Suc ?N])" unfolding xe using E2 by simp
  obtain n where n: "n < Suc ?N" "?f n \<noteq> []" "\<forall>j < n. ?f j = []"
      "hd (concat (map ?f [0 ..< Suc ?N])) = hd (?f n)"
    using first_upt[of ?f "Suc ?N"] x(2) unfolding Fx by blast
  have hd_eq: "hd (ms False method_name_rx g0 s) = hd (?f n)"
    unfolding x(3) Fx n(4) ..
  obtain g' rest where hr: "hd (?f n) = (g', rest)" by (cases "hd (?f n)")
  have "(g', rest) \<in> set (?f n)" using hd_in_set[OF n(2)] unfolding hr .
  then obtain u2 where u2: "drop n s1 = u2 @ rest" "sem False ?t2 g1 u2 g'"
    unfolding ms_sem by blast
  from u2(2) obtain w sp where w: "u2 = w @ sp @ [CHR ''('']" "w \<noteq> []" "list_all is_word w"
      "list_all is_space sp" "g' = g1(2 \<mapsto> w)"
    unfolding sem_name_tail by blast
  have "n \<le> ?N" using n(1) by simp
  then have "\<exists>k \<le> ?N. drop n s1 = drop k s1" by blast
  then obtain mid where mid: "s1 = mid @ drop n s1" "list_all (cls_ok Dot) mid"
    unfolding drop_prefix_class by blast
  have nl: "CHR 0x0A \<notin> set mid" using mid(2) by (simp add: all_Dot)
  have "?N \<le> length s1" by (rule length_takeWhile_le)
  then have nle: "n \<le> length s1" using \<open>n \<le> ?N\<close> by linarith
  have "length s1 = length mid + length (drop n s1)" using mid(1) by (metis length_append)
  then have lm: "length mid = n" using nle by simp
  have s_eq: "s = m @ mid @ w @ sp @ [CHR ''(''] @ rest"
    using m(1) mid(1) u2(1) w(1) by simp
  have g2: "fst (hd (ms False method_name_rx g0 s)) 2 = Some w"
    unfolding hd_eq hr w(5) by simp
  have minimal: "\<forall>m' mid' w' sp' post'.
              s = m' @ mid' @ w' @ sp' @ [CHR ''(''] @ post' \<and>
              m' \<in> {''public'', ''private'', ''protected''} \<and> CHR 0x0A \<notin> set mid' \<and>
              w' \<noteq> [] \<and> list_all is_word w' \<and> list_all is_space sp'
              \<longrightarrow> length mid \<le> length mid'"
  proof (intro allI impI)
    fix m' mid' w' sp' post'
    assume v: "s = m' @ mid' @ w' @ sp' @ [CHR ''(''] @ post' \<and>
              m' \<in> {''public'', ''private'', ''protected''} \<and> CHR 0x0A \<notin> set mid' \<and>
              w' \<noteq> [] \<and> list_all is_word w' \<and> list_all is_space sp'"
    note v1 = v[THEN conjunct1] and v2 = v[THEN conjunct2, THEN conjunct1]
      and v4 = v[THEN conjunct2, THEN conjunct2, THEN conjunct2, THEN conjunct1]
      and v5 = v[THEN conjunct2, THEN conjunct2, THEN conjunct2, THEN conjunct2, THEN conjunct1]
      and v6 = v[THEN conjunct2, THEN conjunct2, THEN conjunct2, THEN conjunct2, THEN conjunct2]
    show "length mid \<le> length mid'"
    proof (rule ccontr)
      assume "\<not> length mid \<le> length mid'"
      then have lt: "length mid' < n" unfolding lm by simp
      have eq: "m @ s1 = m' @ (mid' @ w' @ sp' @ [CHR ''(''] @ post')"
        unfolding m(1)[symmetric] by (rule v1)
      have mm': "m = m'" using mm v2 eq by (rule modifier_unique)
      have s1: "s1 = mid' @ ((w' @ sp' @ [CHR ''('']) @ post')"
        using eq unfolding mm' by simp
      have "w' @ sp' @ [CHR ''(''] = w' @ sp' @ [CHR ''(''] \<and> w' \<noteq> [] \<and> list_all is_word w' \<and>
            list_all is_space sp' \<and> g1(2 \<mapsto> w') = g1(2 \<mapsto> w')"
        using v4 v5 v6 by simp
      then have "sem False ?t2 g1 (w' @ sp' @ [CHR ''('']) (g1(2 \<mapsto> w'))"
        unfolding sem_name_tail by (intro exI)
      then have "(w' @ sp' @ [CHR ''('']) @ post' = (w' @ sp' @ [CHR ''('']) @ post' \<and>
                 sem False ?t2 g1 (w' @ sp' @ [CHR ''('']) (g1(2 \<mapsto> w'))" by simp
      then have ne': "ms False ?t2 g1 ((w' @ sp' @ [CHR ''('']) @ post') \<noteq> []"
        unfolding ms_nonempty_iff by (intro exI)
      have d: "drop (length mid') s1 = (w' @ sp' @ [CHR ''('']) @ post'"
        unfolding s1 by simp
      have "?f (length mid') \<noteq> []" unfolding d by (rule ne')
      moreover have "?f (length mid') = []" using n(3)[rule_format, OF lt] .
      ultimately show False by contradiction
    qed
  qed
  have "s = m @ mid @ w @ sp @ [CHR ''(''] @ rest \<and>
           m \<in> {''public'', ''private'', ''protected''} \<and> CHR 0x0A \<notin> set mid \<and>
           w \<noteq> [] \<and> list_all is_word w \<and> list_all is_space sp \<and>
           fst (hd (ms False method_name_rx g0 s)) 2 = Some w \<and>
           (\<forall>m' mid' w' sp' post'.
              s = m' @ mid' @ w' @ sp' @ [CHR ''(''] @ post' \<and>
              m' \<in> {''public'', ''private'', ''protected''} \<and> CHR 0x0A \<notin> set mid' \<and>
              w' \<noteq> [] \<and> list_all is_word w' \<and> list_all is_space sp'
              \<longrightarrow> length mid \<le> length mid')"
    by (intro conjI) (fact s_eq mm nl w(2) w(3) w(4) g2 minimal)+
  then show ?thesis by (intro exI)
qed

lemma annotated_form_name:
  assumes "re_search False method_name_rx c = Some g"
  shows "\<exists>pre m mid w sp post.
           annotated_form c pre m mid w sp post \<and> group g 2 = w \<and>
           (\<forall>pre' m' mid' w' sp' post'. annotated_form c pre' m' mid' w' sp' post' \<longrightarrow>
              length pre < length pre' \<or> (length pre = length pre' \<and> length mid \<le> length mid'))"
proof -
  obtain pre rest where h: "c = pre @ rest" "ms False method_name_rx Map.empty rest \<noteq> []"
      "g = fst (hd (ms False method_name_rx Map.empty rest))"
      "\<forall>pre' rest'. c = pre' @ rest' \<and> length pre' < length pre \<longrightarrow>
         ms False method_name_rx Map.empty rest' = []"
    using re_search_first[OF assms] by blast
  obtain m mid w sp post where k: "rest = m @ mid @ w @ sp @ [CHR ''(''] @ post"
      "m \<in> {''public'', ''private'', ''protected''}" "CHR 0x0A \<notin> set mid"
      "w \<noteq> []" "list_all is_word w" "list_all is_space sp"
      "fst (hd (ms False method_name_rx Map.empty rest)) 2 = Some w"
      and minimal: "\<forall>m' mid' w' sp' post'.
              rest = m' @ mid' @ w' @ sp' @ [CHR ''(''] @ post' \<and>
              m' \<in> {''public'', ''private'', ''protected''} \<and> CHR 0x0A \<notin> set mid' \<and>
              w' \<noteq> [] \<and> list_all is_word w' \<and> list_all is_space sp'
              \<longrightarrow> length mid \<le> length mid'"
    using ms_method_name_hd[OF h(2)] by blast
  have af: "annotated_form c pre m mid w sp post"
    unfolding annotated_form_def h(1) using k(1-6) by simp
  have gr: "group g 2 = w" unfolding h(3) group_def using k(7) by simp
  have order: "\<forall>pre' m' mid' w' sp' post'. annotated_form c pre' m' mid' w' sp' post' \<longrightarrow>
      length pre < length pre' \<or> (length pre = length pre' \<and> length mid \<le> length mid')"
  proof (intro allI impI)
    fix pre' m' mid' w' sp' post'
    assume a: "annotated_form c pre' m' mid' w' sp' post'"
    then have c': "c = pre' @ m' @ mid' @ w' @ sp' @ [CHR ''(''] @ post'"
      and v: "m' \<in> {''public'', ''private'', ''protected''} \<and> CHR 0x0A \<notin> set mid' \<and>
              w' \<noteq> [] \<and> list_all is_word w' \<and> list_all is_space sp'"
      unfolding annotated_form_def by blast+
    consider (lt) "length pre' < length pre" | (eq) "length pre' = length pre"
      | (gt) "length pre < length pre'" by linarith
    then show "length pre < length pre' \<or> (length pre = length pre' \<and> length mid \<le> length mid')"
    proof cases
      case lt
      let ?u = "m' @ mid' @ w' @ sp' @ [CHR ''('']"
      have "?u = m' @ mid' @ w' @ sp' @ [CHR ''(''] \<and>
            m' \<in> {''public'', ''private'', ''protected''} \<and> CHR 0x0A \<notin> set mid' \<and>
            w' \<noteq> [] \<and> list_all is_word w' \<and> list_all is_space sp' \<and>
            Map.empty(1 \<mapsto> m', 2 \<mapsto> w') = Map.empty(1 \<mapsto> m', 2 \<mapsto> w')"
        using v by simp
      then have "sem False method_name_rx Map.empty ?u (Map.empty(1 \<mapsto> m', 2 \<mapsto> w'))"
        unfolding sem_method_name_rx by (intro exI)
      then have "?u @ post' = ?u @ post' \<and>
                 sem False method_name_rx Map.empty ?u (Map.empty(1 \<mapsto> m', 2 \<mapsto> w'))" by simp
      then have ne: "ms False method_name_rx Map.empty (?u @ post') \<noteq> []"
        unfolding ms_nonempty_iff by (intro exI)
      have "c = pre' @ (?u @ post') \<and> length pre' < length pre" using c' lt by simp
      then have "ms False method_name_rx Map.empty (?u @ post') = []"
        using h(4)[rule_format] by blast
      with ne show ?thesis by contradiction
    next
      case eq
      have "pre @ rest = pre' @ (m' @ mid' @ w' @ sp' @ [CHR ''(''] @ post')"
        unfolding h(1)[symmetric] by (rule c')
      then have "rest = m' @ mid' @ w' @ sp' @ [CHR ''(''] @ post'"
        using eq by simp
      with v have "length mid \<le> length mid'" using minimal[rule_format] by blast
      with eq show ?thesis by simp
    next
      case gt
      then show ?thesis by simp
    qed
  qed
  have "annotated_form c pre m mid w sp post \<and> group g 2 = w \<and>
           (\<forall>pre' m' mid' w' sp' post'. annotated_form c pre' m' mid' w' sp' post' \<longrightarrow>
              length pre < length pre' \<or> (length pre = length pre' \<and> length mid \<le> length mid'))"
    by (intro conjI) (fact af gr order)+
  then show ?thesis by (intro exI)
qed

section \<open>The loops of main\<close>

lemma not_test_method_Nil: "\<not> is_test_method []"
  by (simp add: is_test_method_def test_method_rx_def modifier_rx_def lit_eq_def casefold_def)

lemma extract_trivial:
  "test_lines = [] \<or> test_lines = [[]] \<Longrightarrow> extract_test_methods test_lines = []"
  by (auto simp: extract_test_methods_def not_test_method_Nil)

lemma analyze_all_length: "length (fst (analyze_all e agent fp ls k)) = length ls"
  by (induction ls arbitrary: k) (simp_all add: split_def Let_def)

lemma main_loop_Cons_cases:
  obtains
    (skip) "\<not> path_exists e fp \<or> extract_test_methods (find_test_lines e fp) = []"
      "main_loop e agent (fp # files) (as, t, k) = main_loop e agent files (as, t, k)"
  | (add) ms k1 where "path_exists e fp"
      "extract_test_methods (find_test_lines e fp) \<noteq> []"
      "analyze_all e agent fp (take 3 (extract_test_methods (find_test_lines e fp))) k = (ms, k1)"
      "main_loop e agent (fp # files) (as, t, k) =
         main_loop e agent files
           (as @ [\<lparr>FileAnalysis.file_path = fp, test_methods = ms, total_tests = int (length ms)\<rparr>],
            t + int (length ms), k1)"
proof (cases "\<not> path_exists e fp \<or> extract_test_methods (find_test_lines e fp) = []")
  case True
  then have "main_loop e agent (fp # files) (as, t, k) = main_loop e agent files (as, t, k)"
    using extract_trivial[of "find_test_lines e fp"] by (auto simp: Let_def)
  with True show ?thesis by (rule skip)
next
  case False
  then have ex: "path_exists e fp" and ne: "extract_test_methods (find_test_lines e fp) \<noteq> []"
    by auto
  from ne have tl: "\<not> (find_test_lines e fp = [] \<or> find_test_lines e fp = [[]])"
    using extract_trivial by blast
  obtain ms k1 where
    a: "analyze_all e agent fp (take 3 (extract_test_methods (find_test_lines e fp))) k = (ms, k1)"
    by (cases "analyze_all e agent fp (take 3 (extract_test_methods (find_test_lines e fp))) k")
  have "main_loop e agent (fp # files) (as, t, k) =
         main_loop e agent files
           (as @ [\<lparr>FileAnalysis.file_path = fp, test_methods = ms, total_tests = int (length ms)\<rparr>],
            t + int (length ms), k1)"
    using ex ne tl a by (simp add: Let_def)
  with ex ne a show ?thesis by (rule add)
qed

text \<open>A property of the loop state that every added file keeps holds at the end.\<close>

lemma main_loop_invariant:
  assumes base: "P as t"
    and step: "\<And>as t fp ms k k1. P as t \<Longrightarrow> path_exists e fp \<Longrightarrow>
        extract_test_methods (find_test_lines e fp) \<noteq> [] \<Longrightarrow>
        analyze_all e agent fp (take 3 (extract_test_methods (find_test_lines e fp))) k = (ms, k1) \<Longrightarrow>
        P (as @ [\<lparr>FileAnalysis.file_path = fp, test_methods = ms, total_tests = int (length ms)\<rparr>])
          (t + int (length ms))"
  shows "P (fst (main_loop e agent files (as, t, k))) (fst (snd (main_loop e agent files (as, t, k))))"
  using base
proof (induction files arbitrary: as t k)
  case Nil
  then show ?case by simp
next
  case (Cons fp files)
  show ?case
  proof (cases rule: main_loop_Cons_cases[of e fp agent files as t k])
    case skip
    show ?thesis unfolding skip(2) using Cons.prems by (rule Cons.IH)
  next
    case (add ms k1)
    have "P (as @ [\<lparr>FileAnalysis.file_path = fp, test_methods = ms, total_tests = int (length ms)\<rparr>])
            (t + int (length ms))"
      using Cons.prems add(1,2,3) by (rule step)
    then show ?thesis unfolding add(4) by (rule Cons.IH)
  qed
qed

lemma main_file_analyses:
  "file_analyses (main e agent repo_path) = fst (main_loop e agent (list_files e repo_path) ([], 0, 0))"
  by (simp add: main_def Let_def split_def)

lemma main_total_tests_found:
  "total_tests_found (main e agent repo_path) =
     fst (snd (main_loop e agent (list_files e repo_path) ([], 0, 0)))"
  by (simp add: main_def Let_def split_def)

lemma main_total_files_analyzed:
  "total_files_analyzed (main e agent repo_path) =
     int (length (filter (path_exists e) (list_files e repo_path)))"
  by (simp add: main_def Let_def split_def)

lemma main_loop_length:
  "length (fst (main_loop e agent files (as, t, k))) \<le> length as + length (filter (path_exists e) files)"
proof (induction files arbitrary: as t k)
  case Nil
  then show ?case by simp
next
  case (Cons fp files)
  show ?case
  proof (cases rule: main_loop_Cons_cases[of e fp agent files as t k])
    case skip
    have "length (fst (main_loop e agent files (as, t, k)))
            \<le> length as + length (filter (path_exists e) files)" by (rule Cons.IH)
    then show ?thesis unfolding skip(2) by simp
  next
    case (add ms k1)
    let ?fa = "\<lparr>FileAnalysis.file_path = fp, test_methods = ms, total_tests = int (length ms)\<rparr>"
    have "length (fst (main_loop e agent files (as @ [?fa], t + int (length ms), k1)))
            \<le> length (as @ [?fa]) + length (filter (path_exists e) files)" by (rule Cons.IH)
    then show ?thesis unfolding add(4) using add(1) by simp
  qed
qed

lemma main_loop_total:
  "fst (snd (main_loop e agent files (as, t, k))) =
     t + (\<Sum>fp\<leftarrow>filter (path_exists e) files.
            int (min 3 (length (extract_test_methods (find_test_lines e fp)))))"
proof (induction files arbitrary: as t k)
  case Nil
  then show ?case by simp
next
  case (Cons fp files)
  show ?case
  proof (cases rule: main_loop_Cons_cases[of e fp agent files as t k])
    case skip
    have "fst (snd (main_loop e agent files (as, t, k))) =
       t + (\<Sum>fp\<leftarrow>filter (path_exists e) files.
              int (min 3 (length (extract_test_methods (find_test_lines e fp)))))" by (rule Cons.IH)
    then show ?thesis unfolding skip(2) using skip(1) by auto
  next
    case (add ms k1)
    let ?fa = "\<lparr>FileAnalysis.file_path = fp, test_methods = ms, total_tests = int (length ms)\<rparr>"
    have len: "length ms = min 3 (length (extract_test_methods (find_test_lines e fp)))"
      using analyze_all_length[of e agent fp "take 3 (extract_test_methods (find_test_lines e fp))" k]
      unfolding add(3) by simp
    have "fst (snd (main_loop e agent files (as @ [?fa], t + int (length ms), k1))) =
       t + int (length ms) + (\<Sum>fp\<leftarrow>filter (path_exists e) files.
              int (min 3 (length (extract_test_methods (find_test_lines e fp)))))" by (rule Cons.IH)
    then show ?thesis unfolding add(4) using add(1) len by simp
  qed
qed

section \<open>The loops, entry by entry\<close>































text \<open>The run of lesson_6.py on the small repository, evaluated once.\<close>

lemma demo_main:
  "main demo_env demo_agent ''/r'' =
     \<lparr>repository_path = ''/r'', total_files_analyzed = 1, total_tests_found = 3,
      file_analyses =
        [\<lparr>FileAnalysis.file_path = ''/r/A.java'',
          test_methods =
            [\<lparr>name = ''testA'', line_number = 2, purpose = ''Tests it'',
               TestMethod.file_path = ''/r/A.java''\<rparr>,
             \<lparr>name = ''Unknown'', line_number = 5, purpose = ''Analysis failed: boom'',
               TestMethod.file_path = ''/r/A.java''\<rparr>,
             \<lparr>name = ''testC'', line_number = 9, purpose = ''Tests it'',
               TestMethod.file_path = ''/r/A.java''\<rparr>],
          total_tests = 3\<rparr>],
      summary = ''Analyzed 1 files with test methods, found 3 total test methods''\<rparr>"
  by code_simp

lemma demo_candidates:
  "extract_test_methods (find_test_lines demo_env ''/r/A.java'') =
     [''2:public void testA() {'', ''5:@Test void b() {'', ''9:public void testC() {'',
      ''11:private int testD(int x) {'']"
  by code_simp

section \<open>The claims about the pipeline\<close>




text \<open>
  C3.  In the result of a scan, \<open>total_tests_found\<close> is the sum of \<open>total_tests\<close> over
  \<open>file_analyses\<close>, and \<open>total_files_analyzed\<close> is at least the number of entries of
  \<open>file_analyses\<close>.
\<close>

theorem result_counts:
  "total_tests_found (main e agent repo_path) =
     sum_list (map total_tests (file_analyses (main e agent repo_path))) \<and>
   total_files_analyzed (main e agent repo_path) \<ge>
     int (length (file_analyses (main e agent repo_path)))"
proof -
  let ?P = "\<lambda>as (t::int). t = sum_list (map total_tests as)"
  have "?P (fst (main_loop e agent (list_files e repo_path) ([], 0, 0)))
           (fst (snd (main_loop e agent (list_files e repo_path) ([], 0, 0))))"
    by (rule main_loop_invariant) simp_all
  moreover have "length (fst (main_loop e agent (list_files e repo_path) ([], 0, 0)))
      \<le> length ([]::FileAnalysis list) + length (filter (path_exists e) (list_files e repo_path))"
    by (rule main_loop_length)
  ultimately show ?thesis
    unfolding main_file_analyses main_total_tests_found main_total_files_analyzed by simp
qed

theorem result_counts_witness:
  "total_tests_found (main demo_env demo_agent ''/r'') = 3 \<and>
   sum_list (map total_tests (file_analyses (main demo_env demo_agent ''/r''))) = 3 \<and>
   total_files_analyzed (main demo_env demo_agent ''/r'') = 1 \<and>
   length (file_analyses (main demo_env demo_agent ''/r'')) = 1"
  using result_counts[of demo_env demo_agent "''/r''"]
  by (simp add: demo_main)

text \<open>
  C8.  In every \<open>FileAnalysis\<close> of the result, \<open>total_tests\<close> is the length of
  \<open>test_methods\<close>.
\<close>

theorem file_analysis_total:
  "\<forall>fa \<in> set (file_analyses (main e agent repo_path)).
     total_tests fa = int (length (test_methods fa))"
proof -
  let ?P = "\<lambda>as (t::int). \<forall>fa \<in> set as. total_tests fa = int (length (test_methods fa))"
  have "?P (fst (main_loop e agent (list_files e repo_path) ([], 0, 0)))
           (fst (snd (main_loop e agent (list_files e repo_path) ([], 0, 0))))"
    by (rule main_loop_invariant) simp_all
  then show ?thesis unfolding main_file_analyses .
qed

theorem file_analysis_total_witness:
  "length (file_analyses (main demo_env demo_agent ''/r'')) = 1 \<and>
   list_all (\<lambda>fa. total_tests fa = int (length (test_methods fa)))
     (file_analyses (main demo_env demo_agent ''/r''))"
  using file_analysis_total[of demo_env demo_agent "''/r''"]
  by (simp add: demo_main list_all_iff)

text \<open>
  C9.  Only the capped candidates are counted: \<open>total_tests_found\<close> is the sum, over the
  files listed that exist, of the smaller of three and the number of candidate lines of
  the file; and a \<open>FileAnalysis\<close> holds exactly that many test methods.  Candidate lines
  after the third of a file count nowhere.
\<close>

theorem capped_count:
  "total_tests_found (main e agent repo_path) =
     (\<Sum>fp\<leftarrow>filter (path_exists e) (list_files e repo_path).
        int (min 3 (length (extract_test_methods (find_test_lines e fp))))) \<and>
   (\<forall>fa \<in> set (file_analyses (main e agent repo_path)).
      length (test_methods fa) =
        min 3 (length (extract_test_methods (find_test_lines e (FileAnalysis.file_path fa)))))"
proof -
  let ?P = "\<lambda>as (t::int). \<forall>fa \<in> set as. length (test_methods fa) =
        min 3 (length (extract_test_methods (find_test_lines e (FileAnalysis.file_path fa))))"
  have "?P (fst (main_loop e agent (list_files e repo_path) ([], 0, 0)))
           (fst (snd (main_loop e agent (list_files e repo_path) ([], 0, 0))))"
  proof (rule main_loop_invariant)
    show "?P [] 0" by simp
  next
    fix as :: "FileAnalysis list" and t :: int and fp ms k k1
    assume inv: "?P as t"
      and a: "analyze_all e agent fp (take 3 (extract_test_methods (find_test_lines e fp))) k = (ms, k1)"
    have "length ms = min 3 (length (extract_test_methods (find_test_lines e fp)))"
      using analyze_all_length[of e agent fp "take 3 (extract_test_methods (find_test_lines e fp))" k]
      unfolding a by simp
    then show "?P (as @ [\<lparr>FileAnalysis.file_path = fp, test_methods = ms, total_tests = int (length ms)\<rparr>])
             (t + int (length ms))"
      using inv by auto
  qed
  moreover have "fst (snd (main_loop e agent (list_files e repo_path) ([], 0, 0))) =
     0 + (\<Sum>fp\<leftarrow>filter (path_exists e) (list_files e repo_path).
        int (min 3 (length (extract_test_methods (find_test_lines e fp)))))"
    by (rule main_loop_total)
  ultimately show ?thesis
    unfolding main_file_analyses main_total_tests_found by simp
qed

theorem capped_count_witness:
  "length (extract_test_methods (find_test_lines demo_env ''/r/A.java'')) = 4 \<and>
   map FileAnalysis.file_path (file_analyses (main demo_env demo_agent ''/r'')) = [''/r/A.java''] \<and>
   total_tests_found (main demo_env demo_agent ''/r'') = 3 \<and>
   list_all (\<lambda>fa. length (test_methods fa) = 3) (file_analyses (main demo_env demo_agent ''/r''))"
  using capped_count[of demo_env demo_agent "''/r''"]
  by (simp add: demo_candidates demo_main list_all_iff)

section \<open>The context window\<close>

lemma py_slice_in_range:
  assumes "0 \<le> i" "i < int (length xs)"
  shows "py_slice xs i (i + 20) = take 20 (drop (nat i) xs)"
proof -
  have lo: "slice_bound (length xs) i = nat i"
    using assms by (simp add: slice_bound_def)
  have hi: "slice_bound (length xs) (i + 20) = min (length xs) (nat i + 20)"
    using assms by (simp add: slice_bound_def nat_add_distrib)
  show ?thesis
  proof (cases "nat i + 20 \<le> length xs")
    case True
    then show ?thesis by (simp add: py_slice_def lo hi Let_def)
  next
    case False
    then have "length (drop (nat i) xs) \<le> 20" by simp
    then have "take 20 (drop (nat i) xs) = drop (nat i) xs" by simp
    moreover have "take (length xs - nat i) (drop (nat i) xs) = drop (nat i) xs" by simp
    ultimately show ?thesis using False by (simp add: py_slice_def lo hi Let_def)
  qed
qed

lemma py_slice_beyond:
  assumes "int (length xs) \<le> i"
  shows "py_slice xs i j = []"
proof -
  have "slice_bound (length xs) i = length xs"
    using assms by (simp add: slice_bound_def)
  then show ?thesis by (simp add: py_slice_def Let_def)
qed

text \<open>
  C5.  For a readable file and a line number \<open>n\<close> between 1 and the number of lines, the
  context is the concatenation of the lines \<open>n\<close> to \<open>n + 19\<close>, as far as the file has
  them, each with its line break; at the last line it is that line alone.
\<close>

theorem context_window:
  assumes "1 \<le> n" and "n \<le> int (length lines)"
  shows "method_body_of (Some lines) n method_content =
           concat (take 20 (drop (nat (n - 1)) lines)) \<and>
         (n = int (length lines) \<longrightarrow>
            method_body_of (Some lines) n method_content = last lines)"
proof -
  have w: "method_body_of (Some lines) n method_content =
             concat (take 20 (drop (nat (n - 1)) lines))"
    using assms py_slice_in_range[of "n - 1" lines]
    by (simp add: method_body_of_def Let_def)
  have "method_body_of (Some lines) n method_content = last lines" if "n = int (length lines)"
  proof -
    have ne: "lines \<noteq> []" using assms that by auto
    have "nat (n - 1) = length lines - 1" using that by simp
    then have "drop (nat (n - 1)) lines = [last lines]"
      using ne by (metis append_butlast_last_id append_eq_conv_conj length_butlast)
    then show ?thesis using w by simp
  qed
  with w show ?thesis by blast
qed

theorem context_window_witness:
  "method_body_of (Some [''a'' @ nl, ''b'' @ nl, ''c'' @ nl]) 3 ''x'' = ''c'' @ nl \<and>
   method_body_of (Some [''a'' @ nl, ''b'' @ nl, ''c'' @ nl]) 2 ''x'' = ''b'' @ nl @ ''c'' @ nl"
  using context_window[of 3 "[''a'' @ nl, ''b'' @ nl, ''c'' @ nl]" "''x''"]
        context_window[of 2 "[''a'' @ nl, ''b'' @ nl, ''c'' @ nl]" "''x''"]
  by (simp add: nl_def)

text \<open>
  C4.  What the reader does outside the range.  An unreadable file gives the matched text.
  A line number beyond the end of a readable file gives the empty string, and the line
  number 0 (which lesson_6.py uses when the text before the colon is not a number) gives
  the last line of a file of at most 19 lines: in neither case the matched text.
\<close>

theorem window_out_of_range:
  "method_body_of None n method_content = method_content \<and>
   (int (length lines) < n \<longrightarrow> method_body_of (Some lines) n method_content = []) \<and>
   (lines \<noteq> [] \<and> length lines \<le> 19 \<longrightarrow>
      method_body_of (Some lines) 0 method_content = last lines)"
proof -
  have a: "method_body_of None n method_content = method_content"
    by (simp add: method_body_of_def)
  have b: "method_body_of (Some lines) n method_content = []" if "int (length lines) < n"
    using that py_slice_beyond[of lines "n - 1" "n - 1 + 20"]
    by (simp add: method_body_of_def Let_def)
  have c: "method_body_of (Some lines) 0 method_content = last lines"
    if "lines \<noteq> [] \<and> length lines \<le> 19"
  proof -
    have "nat (int (length lines) - 1) = length lines - 1" by simp
    then have "py_slice lines (- 1) 19 = drop (length lines - 1) lines"
      using that by (simp add: py_slice_def slice_bound_def Let_def)
    moreover have "drop (length lines - 1) lines = [last lines]"
      using that by (metis append_butlast_last_id append_eq_conv_conj length_butlast)
    ultimately show ?thesis by (simp add: method_body_of_def Let_def)
  qed
  from a b c show ?thesis by blast
qed

theorem window_out_of_range_witness:
  "method_body_of (Some [''a'' @ nl, ''b'' @ nl, ''c'' @ nl]) 7 ''public void testX() {'' = [] \<and>
   method_body_of (Some [''a'' @ nl, ''b'' @ nl, ''c'' @ nl]) 0 ''public void testX() {'' = ''c'' @ nl \<and>
   name (fst (analyze_test_with_agent demo_env ''7:public void testX() {'' ''/r/A.java''
           (\<lambda>k p. Inr p) 0)) = ''testX'' \<and>
   purpose (fst (analyze_test_with_agent demo_env ''7:public void testX() {'' ''/r/A.java''
           (\<lambda>k p. Inr p) 0)) = prompt_of ''testX'' []"
proof -
  have 1: "method_body_of (Some [''a'' @ nl, ''b'' @ nl, ''c'' @ nl]) 7 ''public void testX() {'' = []"
    using window_out_of_range[of 7 "''public void testX() {''" "[''a'' @ nl, ''b'' @ nl, ''c'' @ nl]"]
    by simp
  have 2: "method_body_of (Some [''a'' @ nl, ''b'' @ nl, ''c'' @ nl]) 0 ''public void testX() {'' = ''c'' @ nl"
    using window_out_of_range[of 0 "''public void testX() {''" "[''a'' @ nl, ''b'' @ nl, ''c'' @ nl]"]
    by simp
  have 3: "analyze_test_with_agent demo_env ''7:public void testX() {'' ''/r/A.java'' (\<lambda>k p. Inr p) 0 =
     (\<lparr>name = ''testX'', line_number = 7, purpose = prompt_of ''testX'' [],
        TestMethod.file_path = ''/r/A.java''\<rparr>, 1)"
    by code_simp
  show ?thesis using 1 2 by (simp add: 3)
qed

section \<open>A failing summarizer\<close>






section \<open>The validation of grep_pattern\<close>

lemma pattern_allowed_iff:
  "pattern_allowed pattern \<longleftrightarrow> (\<exists>m \<in> set allowed_patterns. \<exists>a b. pattern = a @ m @ b)"
  by (simp add: pattern_allowed_def list_ex_iff str_in_iff)

text \<open>
  C10.  For a path that is a regular file, \<^verbatim>\<open>grep_pattern\<close> refuses the pattern (returns the
  security error without running anything) exactly when no entry of \<^verbatim>\<open>allowed_patterns\<close>
  occurs in it as a substring.  A pattern that contains an entry anywhere is accepted
  whatever else it holds, and then \<^verbatim>\<open>grep\<close> is run once, on the pattern as given (quoted
  by \<^verbatim>\<open>shlex.quote\<close>), and its output is returned: the validation only gates the call.
\<close>

theorem grep_pattern_validation:
  assumes "fs_exists w (abspath w fp)" and "fs_isfile w (abspath w fp)"
  shows "(grep_pattern w fp pattern ci = (''Error: Pattern not allowed for security reasons'', [])
            \<longleftrightarrow> \<not> (\<exists>m \<in> set allowed_patterns. \<exists>a b. pattern = a @ m @ b)) \<and>
         ((\<exists>m \<in> set allowed_patterns. \<exists>a b. pattern = a @ m @ b) \<longrightarrow>
            grep_pattern w fp pattern ci =
              (case run w (grep_cmd (abspath w fp) pattern ci) of
                 Inr out \<Rightarrow> (if out \<noteq> [] then strip out else ''No matches found'',
                             [grep_cmd (abspath w fp) pattern ci])
               | Inl err \<Rightarrow> (''Error: '' @ err, [grep_cmd (abspath w fp) pattern ci])))"
proof (cases "pattern_allowed pattern")
  case True
  have r: "grep_pattern w fp pattern ci =
              (case run w (grep_cmd (abspath w fp) pattern ci) of
                 Inr out \<Rightarrow> (if out \<noteq> [] then strip out else ''No matches found'',
                             [grep_cmd (abspath w fp) pattern ci])
               | Inl err \<Rightarrow> (''Error: '' @ err, [grep_cmd (abspath w fp) pattern ci]))"
    using assms True by (simp add: grep_pattern_def Let_def)
  then have "snd (grep_pattern w fp pattern ci) \<noteq> []"
    by (simp split: sum.splits)
  then have "grep_pattern w fp pattern ci \<noteq> (''Error: Pattern not allowed for security reasons'', [])"
    by auto
  with r True show ?thesis unfolding pattern_allowed_iff by blast
next
  case False
  then have "grep_pattern w fp pattern ci = (''Error: Pattern not allowed for security reasons'', [])"
    using assms by (simp add: grep_pattern_def Let_def)
  with False show ?thesis unfolding pattern_allowed_iff by blast
qed

theorem grep_pattern_validation_witness:
  "grep_pattern demo_fs ''A.java'' ''publik'' True =
     (''Error: Pattern not allowed for security reasons'', []) \<and>
   grep_pattern demo_fs ''A.java'' ''^.*(a|b)+latest$'' True =
     (''2:public void testA() {'',
      [[''grep'', ''-n'', ''-i'', [CHR 0x27] @ ''^.*(a|b)+latest$'' @ [CHR 0x27], ''/r/A.java'']])"
proof -
  have f: "fs_exists demo_fs (abspath demo_fs ''A.java'')" "fs_isfile demo_fs (abspath demo_fs ''A.java'')"
    by (simp_all add: demo_fs_def)
  have 1: "\<not> (\<exists>m \<in> set allowed_patterns. \<exists>a b. ''publik'' = a @ m @ b)"
    unfolding pattern_allowed_iff[symmetric] by code_simp
  have 2: "\<exists>m \<in> set allowed_patterns. \<exists>a b. ''^.*(a|b)+latest$'' = a @ m @ b"
    unfolding pattern_allowed_iff[symmetric] by code_simp
  have 3: "(case run demo_fs (grep_cmd (abspath demo_fs ''A.java'') ''^.*(a|b)+latest$'' True) of
                 Inr out \<Rightarrow> (if out \<noteq> [] then strip out else ''No matches found'',
                             [grep_cmd (abspath demo_fs ''A.java'') ''^.*(a|b)+latest$'' True])
               | Inl err \<Rightarrow> (''Error: '' @ err, [grep_cmd (abspath demo_fs ''A.java'') ''^.*(a|b)+latest$'' True])) =
     (''2:public void testA() {'',
      [[''grep'', ''-n'', ''-i'', [CHR 0x27] @ ''^.*(a|b)+latest$'' @ [CHR 0x27], ''/r/A.java'']])"
    by code_simp
  show ?thesis
    using grep_pattern_validation[OF f, of "''publik''" True]
          grep_pattern_validation[OF f, of "''^.*(a|b)+latest$''" True] 1 2 3
    by simp
qed

section \<open>Which lines are accepted\<close>

lemma modifier_True:
  "modifier True m \<longleftrightarrow>
     casefold m \<in> {casefold ''public'', casefold ''private'', casefold ''protected''}"
  by (auto simp: modifier_def lit_eq_def)

lemma test_method_search:
  "re_search True test_method_rx line \<noteq> None \<longleftrightarrow>
     (\<exists>pre m mid t w sp post.
        line = pre @ m @ mid @ t @ w @ sp @ [CHR ''(''] @ post \<and> modifier True m \<and>
        CHR 0x0A \<notin> set mid \<and> lit_eq True ''test'' t \<and> w \<noteq> [] \<and> list_all is_word w \<and>
        list_all is_space sp)"
  (is "?L \<longleftrightarrow> ?R")
proof
  assume ?L
  then obtain pre u post g' where 1: "line = pre @ u @ post" "sem True test_method_rx Map.empty u g'"
    unfolding re_search_Some_iff by blast
  from 1(2) obtain m mid t w sp where 2: "u = m @ mid @ t @ w @ sp @ [CHR ''('']" "modifier True m"
      "CHR 0x0A \<notin> set mid" "lit_eq True ''test'' t" "w \<noteq> []" "list_all is_word w"
      "list_all is_space sp"
    unfolding sem_test_method_rx by blast
  have "line = pre @ m @ mid @ t @ w @ sp @ [CHR ''(''] @ post"
    unfolding 1(1) 2(1) by simp
  with 2(2-) show ?R by blast
next
  assume ?R
  then obtain pre m mid t w sp post where 2:
      "line = pre @ m @ mid @ t @ w @ sp @ [CHR ''(''] @ post" "modifier True m"
      "CHR 0x0A \<notin> set mid" "lit_eq True ''test'' t" "w \<noteq> []" "list_all is_word w"
      "list_all is_space sp"
    by blast
  have "sem True test_method_rx Map.empty (m @ mid @ t @ w @ sp @ [CHR ''(''])
          (Map.empty(1 \<mapsto> m))"
    unfolding sem_test_method_rx using 2(2-) by blast
  moreover have "line = pre @ (m @ mid @ t @ w @ sp @ [CHR ''('']) @ post"
    unfolding 2(1) by simp
  ultimately show ?L unfolding re_search_Some_iff by blast
qed

text \<open>
  C1, as the code has it.  A line is accepted exactly when it contains, case being ignored
  in the whole pattern (the modifier as well as \<^verbatim>\<open>test\<close>), one of \<^verbatim>\<open>public\<close>, \<^verbatim>\<open>private\<close>
  and \<^verbatim>\<open>protected\<close>, later on the same line \<^verbatim>\<open>test\<close> followed by at least one more word
  character, then optional white space and an opening parenthesis; or when it contains
  \<^verbatim>\<open>@Test\<close>, in exactly this case.  The line \<^verbatim>\<open>12: public void testAdd() {\<close> is accepted and
  \<^verbatim>\<open>45: // test helper, not a method\<close> is rejected.
\<close>

theorem java_acceptance:
  "(is_test_method line \<longleftrightarrow>
      (\<exists>pre m mid t w sp post.
         line = pre @ m @ mid @ t @ w @ sp @ [CHR ''(''] @ post \<and>
         casefold m \<in> {casefold ''public'', casefold ''private'', casefold ''protected''} \<and>
         CHR 0x0A \<notin> set mid \<and> casefold t = casefold ''test'' \<and>
         w \<noteq> [] \<and> list_all is_word w \<and> list_all is_space sp) \<or>
      (\<exists>a b. line = a @ ''@Test'' @ b)) \<and>
   extract_test_methods test_lines = filter is_test_method test_lines \<and>
   is_test_method ''12: public void testAdd() {'' \<and>
   \<not> is_test_method ''45: // test helper, not a method''"
proof -
  have 1: "is_test_method line \<longleftrightarrow>
      (\<exists>pre m mid t w sp post.
         line = pre @ m @ mid @ t @ w @ sp @ [CHR ''(''] @ post \<and>
         casefold m \<in> {casefold ''public'', casefold ''private'', casefold ''protected''} \<and>
         CHR 0x0A \<notin> set mid \<and> casefold t = casefold ''test'' \<and>
         w \<noteq> [] \<and> list_all is_word w \<and> list_all is_space sp) \<or>
      (\<exists>a b. line = a @ ''@Test'' @ b)"
    unfolding is_test_method_def test_method_search str_in_iff modifier_True
    by (simp only: lit_eq_def if_True)
  have 2: "is_test_method ''12: public void testAdd() {''" by code_simp
  have 3: "\<not> is_test_method ''45: // test helper, not a method''" by code_simp
  from 1 2 3 show ?thesis by (simp only: extract_test_methods_def simp_thms)
qed

theorem java_acceptance_witness:
  "is_test_method ''3:PUBLIC void testAdd() {'' \<and>
   (\<exists>pre m mid t w sp post.
      ''3:PUBLIC void testAdd() {'' = pre @ m @ mid @ t @ w @ sp @ [CHR ''(''] @ post \<and>
      casefold m \<in> {casefold ''public'', casefold ''private'', casefold ''protected''} \<and>
      CHR 0x0A \<notin> set mid \<and> casefold t = casefold ''test'' \<and>
      w \<noteq> [] \<and> list_all is_word w \<and> list_all is_space sp)"
proof -
  have a: "is_test_method ''3:PUBLIC void testAdd() {''" by code_simp
  have b: "\<not> (\<exists>a b. ''3:PUBLIC void testAdd() {'' = a @ ''@Test'' @ b)"
    unfolding str_in_iff[symmetric] by code_simp
  show ?thesis using java_acceptance[of "''3:PUBLIC void testAdd() {''" "[]"] a b by blast
qed

text \<open>
  The claim C1 restricts the ignoring of case to \<^verbatim>\<open>test\<close>.  The line below has no access
  modifier in lower case and no \<^verbatim>\<open>@Test\<close>, and is accepted.
\<close>

theorem modifier_case_counterexample:
  "extract_test_methods [''3:PUBLIC void testAdd() {''] = [''3:PUBLIC void testAdd() {''] \<and>
   \<not> str_in ''public'' ''3:PUBLIC void testAdd() {'' \<and>
   \<not> str_in ''private'' ''3:PUBLIC void testAdd() {'' \<and>
   \<not> str_in ''protected'' ''3:PUBLIC void testAdd() {'' \<and>
   \<not> str_in ''@Test'' ''3:PUBLIC void testAdd() {''"
  by code_simp

section \<open>The derived name\<close>

text \<open>
  C7, as the code has it.  When the text after the colon contains \<^verbatim>\<open>@Test\<close>, the name is
  looked for only behind an access modifier in lower case: if the text has the shape of
  \<open>annotated_form\<close>, the name is the run of word characters before the white space and
  parenthesis, for the leftmost modifier and then the shortest text between modifier and
  name for which the shape fits; otherwise the name is \<^verbatim>\<open>Unknown\<close>, also when a
  \<^verbatim>\<open>test\<close> identifier is there.  When the text does not contain \<^verbatim>\<open>@Test\<close>, the name is the
  leftmost occurrence of \<^verbatim>\<open>test\<close> (in any case) with at least one word character after it,
  taken up to the end of the word characters; \<^verbatim>\<open>Unknown\<close> when there is none.  The name
  of the test method returned is this name, and \<^verbatim>\<open>Unknown\<close> for a line without a colon.
\<close>

theorem method_name_derivation:
  "(str_in ''@Test'' c \<longrightarrow>
      (if \<exists>pre m mid w sp post. annotated_form c pre m mid w sp post
       then \<exists>pre m mid w sp post.
              annotated_form c pre m mid w sp post \<and> method_name_of c = w \<and>
              (\<forall>pre' m' mid' w' sp' post'. annotated_form c pre' m' mid' w' sp' post' \<longrightarrow>
                 length pre < length pre' \<or>
                 (length pre = length pre' \<and> length mid \<le> length mid'))
       else method_name_of c = ''Unknown'')) \<and>
   (\<not> str_in ''@Test'' c \<longrightarrow>
      (if \<exists>pre t w post. prefix_form c pre t w post
       then \<exists>pre t w post.
              prefix_form c pre t w post \<and> method_name_of c = t @ w \<and>
              (post = [] \<or> \<not> is_word (hd post)) \<and>
              (\<forall>pre' t' w' post'. prefix_form c pre' t' w' post' \<longrightarrow> length pre \<le> length pre')
       else method_name_of c = ''Unknown'')) \<and>
   name (fst (analyze_test_with_agent e method_line fp agent k)) =
     (if str_in '':'' method_line then method_name_of (after_colon method_line) else ''Unknown'')"
proof -
  have A: "(if \<exists>pre m mid w sp post. annotated_form c pre m mid w sp post
       then \<exists>pre m mid w sp post.
              annotated_form c pre m mid w sp post \<and> method_name_of c = w \<and>
              (\<forall>pre' m' mid' w' sp' post'. annotated_form c pre' m' mid' w' sp' post' \<longrightarrow>
                 length pre < length pre' \<or>
                 (length pre = length pre' \<and> length mid \<le> length mid'))
       else method_name_of c = ''Unknown'')" if at: "str_in ''@Test'' c"
  proof (cases "re_search False method_name_rx c")
    case None
    then have "\<not> (\<exists>pre m mid w sp post. annotated_form c pre m mid w sp post)"
      unfolding annotated_form_search[symmetric] by simp
    moreover have "method_name_of c = ''Unknown''"
      unfolding method_name_of_def using at None by simp
    ultimately show ?thesis by simp
  next
    case (Some g)
    then have ex: "\<exists>pre m mid w sp post. annotated_form c pre m mid w sp post"
      unfolding annotated_form_search[symmetric] by simp
    have n: "method_name_of c = group g 2"
      unfolding method_name_of_def using at Some by simp
    show ?thesis unfolding n using ex annotated_form_name[OF Some] by simp
  qed
  have B: "(if \<exists>pre t w post. prefix_form c pre t w post
       then \<exists>pre t w post.
              prefix_form c pre t w post \<and> method_name_of c = t @ w \<and>
              (post = [] \<or> \<not> is_word (hd post)) \<and>
              (\<forall>pre' t' w' post'. prefix_form c pre' t' w' post' \<longrightarrow> length pre \<le> length pre')
       else method_name_of c = ''Unknown'')" if nat: "\<not> str_in ''@Test'' c"
  proof (cases "re_search True test_name_rx c")
    case None
    then have "\<not> (\<exists>pre t w post. prefix_form c pre t w post)"
      unfolding prefix_form_search[symmetric] by simp
    moreover have "method_name_of c = ''Unknown''"
      unfolding method_name_of_def using nat None by simp
    ultimately show ?thesis by simp
  next
    case (Some g)
    then have ex: "\<exists>pre t w post. prefix_form c pre t w post"
      unfolding prefix_form_search[symmetric] by simp
    have n: "method_name_of c = group g 1"
      unfolding method_name_of_def using nat Some by simp
    show ?thesis unfolding n using ex prefix_form_name[OF Some] by simp
  qed
  have C: "name (fst (analyze_test_with_agent e method_line fp agent k)) =
     (if str_in '':'' method_line then method_name_of (after_colon method_line) else ''Unknown'')"
    by (simp add: analyze_test_with_agent_def Let_def)
  from A B C show ?thesis by (intro conjI impI)
qed

theorem method_name_derivation_witness:
  "str_in ''@Test'' '' @Test public void testAdd() {'' \<and>
   annotated_form '' @Test public void testAdd() {'' '' @Test '' ''public'' '' void '' ''testAdd''
     [] '') {'' \<and>
   (\<exists>pre m mid w sp post.
      annotated_form '' @Test public void testAdd() {'' pre m mid w sp post \<and>
      method_name_of '' @Test public void testAdd() {'' = w) \<and>
   method_name_of '' @Test public void testAdd() {'' = ''testAdd'' \<and>
   \<not> str_in ''@Test'' '' public void testAdd() {'' \<and>
   prefix_form '' public void testAdd() {'' '' public void '' ''test'' ''Add'' ''() {'' \<and>
   (\<exists>pre t w post.
      prefix_form '' public void testAdd() {'' pre t w post \<and>
      method_name_of '' public void testAdd() {'' = t @ w) \<and>
   method_name_of '' public void testAdd() {'' = ''testAdd''"
proof -
  have 1: "str_in ''@Test'' '' @Test public void testAdd() {''" by code_simp
  have 2: "annotated_form '' @Test public void testAdd() {'' '' @Test '' ''public'' '' void ''
             ''testAdd'' [] '') {''"
    by (simp add: annotated_form_def is_word_def code_def)
  have 3: "\<not> str_in ''@Test'' '' public void testAdd() {''" by code_simp
  have 4: "prefix_form '' public void testAdd() {'' '' public void '' ''test'' ''Add'' ''() {''"
    by (simp add: prefix_form_def is_word_def code_def)
  have 5: "method_name_of '' @Test public void testAdd() {'' = ''testAdd''" by code_simp
  have 6: "method_name_of '' public void testAdd() {'' = ''testAdd''" by code_simp
  have 7: "\<exists>pre m mid w sp post.
      annotated_form '' @Test public void testAdd() {'' pre m mid w sp post \<and>
      method_name_of '' @Test public void testAdd() {'' = w"
    using method_name_derivation[of "'' @Test public void testAdd() {''"] 1 2 by meson
  have 8: "\<exists>pre t w post.
      prefix_form '' public void testAdd() {'' pre t w post \<and>
      method_name_of '' public void testAdd() {'' = t @ w"
    using method_name_derivation[of "'' public void testAdd() {''"] 3 4 by meson
  show ?thesis by (intro conjI) (fact 1 2 3 4 5 6 7 8)+
qed

text \<open>
  The claim C7 gives an annotated line the identifier before the parenthesis as its name
  and keeps \<^verbatim>\<open>Unknown\<close> for lines where neither pattern matches.  The line below is
  accepted, carries the annotation and the identifier \<^verbatim>\<open>testAdd\<close> before the parenthesis,
  and its name is \<^verbatim>\<open>Unknown\<close>, because it has no access modifier.
\<close>

theorem annotated_name_counterexample:
  "extract_test_methods [''5:@Test void testAdd() {''] = [''5:@Test void testAdd() {''] \<and>
   str_in ''@Test'' (after_colon ''5:@Test void testAdd() {'') \<and>
   after_colon ''5:@Test void testAdd() {'' = ''@Test void '' @ ''testAdd'' @ ''() {'' \<and>
   method_name_of (after_colon ''5:@Test void testAdd() {'') = ''Unknown'' \<and>
   name (fst (analyze_test_with_agent demo_env ''5:@Test void testAdd() {'' ''/r/A.java''
               demo_agent 0)) = ''Unknown''"
  by code_simp

end
